theory Spec2Isabelle
  imports Complex_Main "HOL-Library.Sublist"
begin

section \<open>Values and exceptions shared by both scripts\<close>

text \<open>
  What \<^verbatim>\<open>json.loads\<close> and \<^verbatim>\<open>resp.json()\<close> return: \<^verbatim>\<open>None\<close>, a bool, a number, a
  \<^verbatim>\<open>str\<close>, a \<^verbatim>\<open>list\<close> or a \<^verbatim>\<open>dict\<close>. A dict is the list of its items, keys distinct, read
  with \<open>map_of\<close>.
\<close>

datatype json =
    JNull
  | JBool bool
  | JNum rat
  | JStr string
  | JArr "json list"
  | JObj "(string \<times> json) list"

text \<open>The exceptions the two scripts can raise on the paths modelled here.\<close>

datatype error =
    AttributeError
  | TypeError
  | ValueError
  | ZeroDivisionError
  | AssertionError

text \<open>
  \<^verbatim>\<open>x.get(key)\<close> and \<^verbatim>\<open>x.get(key, default)\<close>: only a dict has the method, on anything else
  the attribute lookup raises.
\<close>

fun py_get_default :: "json \<Rightarrow> string \<Rightarrow> json \<Rightarrow> error + json" where
  "py_get_default (JObj kvs) key dflt =
     Inr (case map_of kvs key of None \<Rightarrow> dflt | Some v \<Rightarrow> v)"
| "py_get_default _ key dflt = Inl AttributeError"

definition py_get :: "json \<Rightarrow> string \<Rightarrow> error + json" where
  "py_get x key = py_get_default x key JNull"

text \<open>Truth value of an object, as \<^verbatim>\<open>not x\<close>, \<^verbatim>\<open>if x:\<close> and \<^verbatim>\<open>assert(x)\<close> test it.\<close>

fun py_truthy :: "json \<Rightarrow> bool" where
  "py_truthy JNull = False"
| "py_truthy (JBool b) = b"
| "py_truthy (JNum q) = (q \<noteq> 0)"
| "py_truthy (JStr s) = (s \<noteq> [])"
| "py_truthy (JArr xs) = (xs \<noteq> [])"
| "py_truthy (JObj kvs) = (kvs \<noteq> [])"

text \<open>
  \<^verbatim>\<open>s in x\<close> for a string \<open>s\<close>: membership in a list, substring of a string, key of a
  dict; a number, a bool and \<^verbatim>\<open>None\<close> are not iterable.
\<close>

fun py_str_in :: "string \<Rightarrow> json \<Rightarrow> error + bool" where
  "py_str_in s (JArr xs) = Inr (JStr s \<in> set xs)"
| "py_str_in s (JStr t) = Inr (sublist s t)"
| "py_str_in s (JObj kvs) = Inr (s \<in> fst ` set kvs)"
| "py_str_in s _ = Inl TypeError"

text \<open>\<^verbatim>\<open>s + x\<close> for a string \<open>s\<close>: only a string can be concatenated to it.\<close>

fun py_str_add :: "string \<Rightarrow> json \<Rightarrow> error + string" where
  "py_str_add s (JStr t) = Inr (s @ t)"
| "py_str_add s _ = Inl TypeError"

text \<open>
  \<^verbatim>\<open>print_progress(iteration, total, ...)\<close>: the percentage divides by \<^verbatim>\<open>float(total)\<close>,
  the bar length by \<^verbatim>\<open>total\<close>; both raise when it is zero. Nothing else of it is
  observable here.
\<close>

definition print_progress :: "int \<Rightarrow> int \<Rightarrow> error + unit" where
  "print_progress iteration tot = (if tot = 0 then Inl ZeroDivisionError else Inr ())"


section \<open>The sampler: \<^verbatim>\<open>reservoir_sample\<close> in bluesky\_scraper.py\<close>

text \<open>The item stored in the reservoir (lines 96 to 101).\<close>

record item =
  uri :: string
  did :: string
  rkey :: string
  record_payload :: json

text \<open>
  The local state of the loop: \<open>sample\<close>, \<open>seen_uris\<close> and \<open>n\<close>, and the number of
  calls made so far to the process-wide random generator. \<open>n\<close> starts at zero and is only
  ever incremented, so it is a natural number.
\<close>

record sampler =
  sample :: "item list"
  seen_uris :: "string set"
  n :: nat
  rng_calls :: nat

definition sampler_init :: sampler where
  "sampler_init = \<lparr>sample = [], seen_uris = {}, n = 0, rng_calls = 0\<rparr>"

text \<open>
  \<^verbatim>\<open>random.randint(0, b)\<close> is a library call: it returns an integer of the inclusive range
  \<open>[0, b]\<close>. It is the generator's raw output \<open>g\<close> reduced into that range; every
  value of the range is reached.
\<close>

definition randint0 :: "nat \<Rightarrow> nat \<Rightarrow> nat" where
  "randint0 b g = g mod (Suc b)"

text \<open>
  Lines 70 to 84: the validation of one loaded event. \<open>Inr None\<close> is a \<^verbatim>\<open>continue\<close>,
  \<open>Inr (Some (commit, record))\<close> an event that passed, \<open>Inl e\<close> an exception. The checks
  are in the source's order: \<open>record\<close> is read from the commit before the commit is tested.
\<close>

definition validate :: "json \<Rightarrow> error + (json \<times> json) option" where
  "validate evt =
     (case py_get_default evt ''commit'' (JObj []) of Inl e \<Rightarrow> Inl e | Inr commit \<Rightarrow>
     (case py_get commit ''record'' of Inl e \<Rightarrow> Inl e | Inr record \<Rightarrow>
      if \<not> py_truthy commit then Inr None else
     (case py_get commit ''operation'' of Inl e \<Rightarrow> Inl e | Inr operation \<Rightarrow>
      if operation \<noteq> JStr ''create'' then Inr None else
     (case py_get record ''text'' of Inl e \<Rightarrow> Inl e | Inr text \<Rightarrow>
      if text = JNull \<or> text = JStr [] then Inr None else
     (case py_get record ''langs'' of Inl e \<Rightarrow> Inl e | Inr langs \<Rightarrow>
      if langs = JNull then Inr None else
     (case py_str_in ''en'' langs of Inl e \<Rightarrow> Inl e | Inr has_en \<Rightarrow>
      if \<not> has_en then Inr None else Inr (Some (commit, record))))))))"

text \<open>
  Lines 87 to 90: the identity fields and the uri. After line 90 succeeded, \<open>did\<close>,
  \<open>collection\<close> and \<open>rkey\<close> are strings.
\<close>

definition make_uri :: "json \<Rightarrow> json \<Rightarrow> error + (string \<times> string \<times> string)" where
  "make_uri evt commit =
     (case py_get evt ''did'' of Inl e \<Rightarrow> Inl e | Inr d \<Rightarrow>
     (case py_get commit ''collection'' of Inl e \<Rightarrow> Inl e | Inr collection \<Rightarrow>
     (case py_get commit ''rkey'' of Inl e \<Rightarrow> Inl e | Inr r \<Rightarrow>
     (case py_str_add ''at://'' d of Inl e \<Rightarrow> Inl e | Inr u1 \<Rightarrow>
     (case py_str_add (u1 @ ''/'') collection of Inl e \<Rightarrow> Inl e | Inr u2 \<Rightarrow>
     (case py_str_add (u2 @ ''/'') r of Inl e \<Rightarrow> Inl e | Inr u \<Rightarrow>
      Inr (u, (case d of JStr s \<Rightarrow> s | _ \<Rightarrow> []), (case r of JStr s \<Rightarrow> s | _ \<Rightarrow> []))))))))"

text \<open>
  Lines 95 to 108: the count and the placement of an item. \<open>gen\<close> is the generator's
  sequence of raw outputs. In the \<^verbatim>\<open>else\<close> branch \<open>len(sample) >= k\<close>, so an index
  \<open>pick_random < k\<close> is in range and the assignment cannot raise.
\<close>

definition reservoir_place :: "int \<Rightarrow> nat \<Rightarrow> item \<Rightarrow> item list \<Rightarrow> item list" where
  "reservoir_place k pick_random it smp =
     (if int pick_random < k then smp[pick_random := it] else smp)"

definition reservoir_update :: "int \<Rightarrow> (nat \<Rightarrow> nat) \<Rightarrow> item \<Rightarrow> sampler \<Rightarrow> sampler" where
  "reservoir_update k gen it st =
     (let n' = n st + 1 in
      if int (length (sample st)) < k
      then st\<lparr>sample := sample st @ [it], n := n'\<rparr>
      else let pick_random = randint0 (n' - 1) (gen (rng_calls st))
           in st\<lparr>sample := reservoir_place k pick_random it (sample st), n := n',
                 rng_calls := rng_calls st + 1\<rparr>)"

text \<open>Lines 70 to 108: one iteration of the loop on a received message.\<close>

definition process_event :: "int \<Rightarrow> (nat \<Rightarrow> nat) \<Rightarrow> json \<Rightarrow> sampler \<Rightarrow> error + sampler" where
  "process_event k gen evt st =
     (case validate evt of
        Inl e \<Rightarrow> Inl e
      | Inr None \<Rightarrow> Inr st
      | Inr (Some (commit, record)) \<Rightarrow>
          (case make_uri evt commit of
             Inl e \<Rightarrow> Inl e
           | Inr (u, d, r) \<Rightarrow>
               if u \<in> seen_uris st then Inr st
               else Inr (reservoir_update k gen
                           \<lparr>uri = u, did = d, rkey = r, record_payload = record\<rparr>
                           (st\<lparr>seen_uris := insert u (seen_uris st)\<rparr>))))"

text \<open>
  The \<^verbatim>\<open>while\<close> loop over the messages received before the deadline, each as
  \<^verbatim>\<open>json.loads\<close> returned it; a receive timeout is a \<^verbatim>\<open>continue\<close> and leaves no trace. An
  exception ends the run. The progress bar cannot raise inside the loop, which runs only while
  the elapsed time is below \<^verbatim>\<open>duration_s\<close>, so that \<^verbatim>\<open>duration_s\<close> is not zero there.
\<close>

fun sample_loop :: "int \<Rightarrow> (nat \<Rightarrow> nat) \<Rightarrow> json list \<Rightarrow> sampler \<Rightarrow> error + sampler" where
  "sample_loop k gen [] st = Inr st"
| "sample_loop k gen (evt # evts) st =
     (case process_event k gen evt st of Inl e \<Rightarrow> Inl e
      | Inr st' \<Rightarrow> sample_loop k gen evts st')"

definition reservoir_sample :: "int \<Rightarrow> (nat \<Rightarrow> nat) \<Rightarrow> json list \<Rightarrow> error + item list" where
  "reservoir_sample k gen evts = map_sum id sample (sample_loop k gen evts sampler_init)"

text \<open>
  The sampler on a stream of accepted, deduplicated items, for a given generator: lines 95
  to 108 for each item in turn.
\<close>

fun feed :: "int \<Rightarrow> (nat \<Rightarrow> nat) \<Rightarrow> item list \<Rightarrow> sampler \<Rightarrow> sampler" where
  "feed k gen [] st = st"
| "feed k gen (it # its) st = feed k gen its (reservoir_update k gen it st)"

text \<open>
  The probability space of the generator. Its raw outputs are independent and uniform over
  \<open>[0, R)\<close>, where every size of a range drawn from divides \<open>R\<close>, so that reducing a raw
  output into such a range gives each value of the range with the same probability, as the
  library's \<^verbatim>\<open>randint\<close> does. \<open>gen_of gs\<close> is the generator whose outputs are \<open>gs\<close>, in
  order; \<open>final_sample\<close> is the sample the sampler ends with on it. The sampler draws once
  for each item that arrives at a full reservoir, \<open>number_of_draws\<close> times in all, and
  \<open>raw_sequences\<close> lists the sequences of that many raw outputs, which are equally likely.
  The probability that an item is in the final sample is the fraction of these sequences
  on which the sampler ends with it.
\<close>

definition gen_of :: "nat list \<Rightarrow> nat \<Rightarrow> nat" where
  "gen_of gs i = (if i < length gs then gs ! i else 0)"

definition final_sample :: "int \<Rightarrow> item list \<Rightarrow> nat list \<Rightarrow> item list" where
  "final_sample k its gs = sample (feed k (gen_of gs) its sampler_init)"

definition number_of_draws :: "int \<Rightarrow> item list \<Rightarrow> nat" where
  "number_of_draws k its = length its - nat k"

definition raw_sequences :: "nat \<Rightarrow> nat \<Rightarrow> nat list list" where
  "raw_sequences R d = List.n_lists d [0..<R]"

definition inclusion_probability :: "nat \<Rightarrow> int \<Rightarrow> item list \<Rightarrow> item \<Rightarrow> rat" where
  "inclusion_probability R k its x =
     of_nat (length (filter (\<lambda>gs. x \<in> set (final_sample k its gs))
                            (raw_sequences R (number_of_draws k its))))
     / of_nat (length (raw_sequences R (number_of_draws k its)))"


section \<open>The enricher: hydrate\_data.py\<close>

text \<open>
  The \<^verbatim>\<open>Retry-After\<close> header of a response, as lines 43 to 45 read it: absent or empty
  (falsy), a string that \<^verbatim>\<open>float\<close> reads as a finite number of seconds, or any other
  string, on which \<^verbatim>\<open>float\<close> raises. Delays are rational numbers.
\<close>

datatype retry_after = NoRetryAfter | RetryAfterSeconds rat | RetryAfterMalformed

record response =
  status_code :: int
  retry_after_header :: retry_after
  body :: json

text \<open>What \<^verbatim>\<open>session.get\<close> does: it returns a response or raises a \<^verbatim>\<open>RequestException\<close>.\<close>

datatype reply = Response response | RequestException

text \<open>
  The remote endpoint: the reply to the request with the given number (counted from zero
  within the session) and the given uris.
\<close>

type_synonym endpoint = "nat \<Rightarrow> json list \<Rightarrow> reply"

text \<open>The session: the requests sent so far and the waits slept so far, in order.\<close>

record session =
  requests :: "json list list"
  sleeps :: "rat list"

text \<open>\<^verbatim>\<open>time.sleep(d)\<close> raises on a negative argument.\<close>

definition py_sleep :: "rat \<Rightarrow> session \<Rightarrow> error + session" where
  "py_sleep d s = (if d < 0 then Inl ValueError else Inr (s\<lparr>sleeps := sleeps s @ [d]\<rparr>))"

text \<open>
  Lines 32 to 61: the loop of \<^verbatim>\<open>get_batch\<close> over the attempts still to make. Each attempt
  sends one request; \<^verbatim>\<open>resp.json()\<close> gives the body of the response. An exception other than
  \<^verbatim>\<open>RequestException\<close> leaves the function.
\<close>

fun get_batch_loop ::
  "endpoint \<Rightarrow> json list \<Rightarrow> int \<Rightarrow> rat \<Rightarrow> nat list \<Rightarrow> session \<Rightarrow> (error + json) \<times> session"
where
  "get_batch_loop ep uris retries base_backoff [] s = (Inr (JArr []), s)"
| "get_batch_loop ep uris retries base_backoff (attempt # rest) s =
     (let s1 = s\<lparr>requests := requests s @ [uris]\<rparr> in
      case ep (length (requests s)) uris of
        Response resp \<Rightarrow>
          if status_code resp = 200 then (py_get (body resp) ''posts'', s1)
          else if status_code resp \<in> {429, 500, 502, 503, 504} then
            (case (case retry_after_header resp of
                     NoRetryAfter \<Rightarrow> Inr (base_backoff * 2 ^ attempt)
                   | RetryAfterSeconds q \<Rightarrow> Inr q
                   | RetryAfterMalformed \<Rightarrow> Inl ValueError) of
               Inl e \<Rightarrow> (Inl e, s1)
             | Inr sleep_s \<Rightarrow>
                 if int attempt < retries then
                   (case py_sleep (min sleep_s 30) s1 of
                      Inl e \<Rightarrow> (Inl e, s1)
                    | Inr s2 \<Rightarrow> get_batch_loop ep uris retries base_backoff rest s2)
                 else (Inr (JArr []), s1))
          else (Inr (JArr []), s1)
      | RequestException \<Rightarrow>
          if int attempt < retries then
            (case py_sleep (min (base_backoff * 2 ^ attempt) 30) s1 of
               Inl e \<Rightarrow> (Inl e, s1)
             | Inr s2 \<Rightarrow> get_batch_loop ep uris retries base_backoff rest s2)
          else (Inr (JArr []), s1))"

definition get_batch ::
  "endpoint \<Rightarrow> json list \<Rightarrow> int \<Rightarrow> rat \<Rightarrow> session \<Rightarrow> (error + json) \<times> session"
where
  "get_batch ep uris retries base_backoff s =
     get_batch_loop ep uris retries base_backoff [0..<nat (retries + 1)] s"

text \<open>The defaults of \<^verbatim>\<open>get_batch\<close>: \<^verbatim>\<open>retries = 4\<close>, \<^verbatim>\<open>base_backoff = 0.8\<close>.\<close>

definition default_retries :: int where
  "default_retries = 4"

definition default_base_backoff :: rat where
  "default_base_backoff = 4 / 5"

definition BATCH_SIZE :: nat where
  "BATCH_SIZE = 25"

text \<open>
  Iterating over a batch result (\<^verbatim>\<open>for post in r\<close>): the elements of a list, the
  characters of a string, the keys of a dict.
\<close>

fun py_iter :: "json \<Rightarrow> error + json list" where
  "py_iter (JArr xs) = Inr xs"
| "py_iter (JStr s) = Inr (map (\<lambda>c. JStr [c]) s)"
| "py_iter (JObj kvs) = Inr (map (\<lambda>kv. JStr (fst kv)) kvs)"
| "py_iter _ = Inl TypeError"

text \<open>Lines 88 to 97: the \<^verbatim>\<open>item\<close> built from a post.\<close>

definition make_item :: "json \<Rightarrow> error + json" where
  "make_item post =
     (case py_get post ''uri'' of Inl e \<Rightarrow> Inl e | Inr u \<Rightarrow>
     (case py_get post ''author'' of Inl e \<Rightarrow> Inl e | Inr a \<Rightarrow>
     (case py_get post ''record'' of Inl e \<Rightarrow> Inl e | Inr r \<Rightarrow>
     (case py_get post ''likeCount'' of Inl e \<Rightarrow> Inl e | Inr lc \<Rightarrow>
     (case py_get post ''replyCount'' of Inl e \<Rightarrow> Inl e | Inr rc \<Rightarrow>
     (case py_get post ''repostCount'' of Inl e \<Rightarrow> Inl e | Inr pc \<Rightarrow>
     (case py_get post ''bookmarkCount'' of Inl e \<Rightarrow> Inl e | Inr bc \<Rightarrow>
     (case py_get post ''quoteCount'' of Inl e \<Rightarrow> Inl e | Inr qc \<Rightarrow>
      Inr (JObj [(''uri'', u), (''author'', a), (''record'', r), (''like_count'', lc),
                 (''reply_count'', rc), (''repost_count'', pc), (''bookmark_count'', bc),
                 (''quote_count'', qc)])))))))))"

text \<open>
  The state of \<^verbatim>\<open>hydrate\<close>: \<open>corpus\<close>, \<open>hydrated\<close> and the session, and the trace of the
  calls of \<^verbatim>\<open>get_batch\<close> made so far, each with the batch passed and what came back.
\<close>

record hydration =
  corpus :: "json list"
  hydrated :: nat
  http :: session
  lookups :: "(json list \<times> (error + json)) list"

text \<open>Lines 85 to 99 and 106 to 118: the loop over the posts of a batch result.\<close>

fun add_posts :: "json list \<Rightarrow> hydration \<Rightarrow> (error \<times> hydration) + hydration" where
  "add_posts [] h = Inr h"
| "add_posts (post # posts) h =
     (case make_item post of Inl e \<Rightarrow> Inl (e, h)
      | Inr item \<Rightarrow> add_posts posts (h\<lparr>corpus := corpus h @ [post], hydrated := hydrated h + 1\<rparr>))"

text \<open>
  Lines 82 to 99 and 104 to 118: the lookup of a batch with the default retry budget, the
  assertion on its result, and the accumulation. An exception carries the state it left.
\<close>

definition lookup_batch :: "endpoint \<Rightarrow> json list \<Rightarrow> hydration \<Rightarrow> (error \<times> hydration) + hydration" where
  "lookup_batch ep batch h =
     (case get_batch ep batch default_retries default_base_backoff (http h) of (res, s') \<Rightarrow>
        (let h1 = h\<lparr>http := s', lookups := lookups h @ [(batch, res)]\<rparr> in
         (case res of
            Inl e \<Rightarrow> Inl (e, h1)
          | Inr r \<Rightarrow>
              if \<not> py_truthy r then Inl (AssertionError, h1)
              else (case py_iter r of Inl e \<Rightarrow> Inl (e, h1) | Inr posts \<Rightarrow> add_posts posts h1))))"

text \<open>
  Lines 77 to 100: the \<^verbatim>\<open>while\<close> loop, from index \<open>i\<close> with the batch collected so far.
  It returns the batch left over.
\<close>

function hydrate_loop ::
  "endpoint \<Rightarrow> json list \<Rightarrow> nat \<Rightarrow> json list \<Rightarrow> hydration \<Rightarrow> (error \<times> hydration) + (json list \<times> hydration)"
where
  "hydrate_loop ep dat i batch h =
     (if i < length dat then
        if length batch < BATCH_SIZE then
          (case py_get (dat ! i) ''uri'' of Inl e \<Rightarrow> Inl (e, h)
           | Inr u \<Rightarrow> hydrate_loop ep dat (i + 1) (batch @ [u]) h)
        else
          (case lookup_batch ep batch h of Inl eh \<Rightarrow> Inl eh
           | Inr h' \<Rightarrow>
             (case print_progress (int i) (int (length dat) - 1) of Inl e \<Rightarrow> Inl (e, h')
              | Inr _ \<Rightarrow> hydrate_loop ep dat i [] h'))
      else Inr (batch, h))"
  by pat_completeness auto
termination
  by (relation "measure (\<lambda>(ep, dat, i, batch, h).
        2 * (length dat - i) + (if length batch < BATCH_SIZE then 0 else 1))")
     (auto simp: BATCH_SIZE_def)

definition hydration_init :: hydration where
  "hydration_init = \<lparr>corpus = [], hydrated = 0, http = \<lparr>requests = [], sleeps = []\<rparr>, lookups = []\<rparr>"

text \<open>
  Lines 67 to 120: \<^verbatim>\<open>hydrate\<close> on the list under \<^verbatim>\<open>"data"\<close> of the sample document, with
  a new session. The first call of the progress bar divides by \<^verbatim>\<open>len(data) - 1\<close>.
\<close>

definition hydrate :: "endpoint \<Rightarrow> json list \<Rightarrow> (error \<times> hydration) + hydration" where
  "hydrate ep dat =
     (case print_progress 0 (int (length dat) - 1) of
        Inl e \<Rightarrow> Inl (e, hydration_init)
      | Inr _ \<Rightarrow>
          (case hydrate_loop ep dat 0 [] hydration_init of
             Inl eh \<Rightarrow> Inl eh
           | Inr (batch, h) \<Rightarrow>
               if batch \<noteq> [] then
                 (case lookup_batch ep batch h of
                    Inl eh \<Rightarrow> Inl eh
                  | Inr h' \<Rightarrow>
                      (case print_progress (int (length dat)) (int (length dat)) of
                         Inl e \<Rightarrow> Inl (e, h')
                       | Inr _ \<Rightarrow> Inr h'))
               else Inr h))"

text \<open>Lines 123 and 124: the document that is written out.\<close>

record document =
  doc_total :: nat
  doc_data :: "json list"

definition hydrated_document :: "endpoint \<Rightarrow> json list \<Rightarrow> error + document" where
  "hydrated_document ep dat =
     (case hydrate ep dat of Inl (e, h) \<Rightarrow> Inl e
      | Inr h \<Rightarrow> Inr \<lparr>doc_total = hydrated h, doc_data = corpus h\<rparr>)"


section \<open>Notions used in the statements\<close>

subsection \<open>From the words of the specification\<close>


text \<open>
  Section 4.5, the partition of a list into consecutive chunks of a fixed size, the last
  one possibly smaller.
\<close>

function chunks :: "nat \<Rightarrow> 'a list \<Rightarrow> 'a list list" where
  "chunks b xs = (if b = 0 \<or> xs = [] then [] else take b xs # chunks b (drop b xs))"
  by pat_completeness auto
termination
  by (relation "measure (\<lambda>(b, xs). length xs)") auto

subsection \<open>Read off the model\<close>

text \<open>
  The identity of a qualifying event: the uri of an event that passes the validation and
  whose uri can be built; \<open>None\<close> for any other event.
\<close>

definition event_uri :: "json \<Rightarrow> string option" where
  "event_uri evt =
     (case validate evt of
        Inr (Some (commit, record)) \<Rightarrow>
          (case make_uri evt commit of Inr (u, d, r) \<Rightarrow> Some u | Inl e \<Rightarrow> None)
      | _ \<Rightarrow> None)"

text \<open>The item made of a qualifying event; \<open>None\<close> for any other event.\<close>

definition event_item :: "json \<Rightarrow> item option" where
  "event_item evt =
     (case validate evt of
        Inr (Some (commit, record)) \<Rightarrow>
          (case make_uri evt commit of
             Inr (u, d, r) \<Rightarrow> Some \<lparr>uri = u, did = d, rkey = r, record_payload = record\<rparr>
           | Inl e \<Rightarrow> None)
      | _ \<Rightarrow> None)"

text \<open>The identities of the accepted events of a stream, in order of arrival.\<close>

definition accepted_uris :: "json list \<Rightarrow> string list" where
  "accepted_uris evts = List.map_filter event_uri evts"

text \<open>The identities read from the sample document, \<^verbatim>\<open>None\<close> where an entry has none.\<close>

definition uris_of :: "json list \<Rightarrow> json list" where
  "uris_of dat = map (\<lambda>d. case py_get d ''uri'' of Inr u \<Rightarrow> u | Inl e \<Rightarrow> JNull) dat"

subsection \<open>Invariants and counts\<close>

text \<open>
  The final samples by the draws made: \<open>outcomes\<close> lists the final sample of lines 95 to
  108 once for each sequence of values drawn, each from its range \<open>[0, n - 1]\<close>;
  \<open>present_count\<close> counts the entries that hold an item.
\<close>

fun outcomes :: "int \<Rightarrow> item list \<Rightarrow> nat \<Rightarrow> item list \<Rightarrow> item list list" where
  "outcomes k smp m [] = [smp]"
| "outcomes k smp m (it # its) =
     (let n' = m + 1 in
      if int (length smp) < k then outcomes k (smp @ [it]) n' its
      else concat (map (\<lambda>pick_random. outcomes k (reservoir_place k pick_random it smp) n' its)
                       [0..<Suc (n' - 1)]))"

definition present_count :: "item \<Rightarrow> item list list \<Rightarrow> nat" where
  "present_count x outs = length (filter (\<lambda>smp. x \<in> set smp) outs)"

text \<open>
  The number of sequences of draws when \<open>l\<close> items arrive at a full reservoir after \<open>m\<close>
  items were counted.
\<close>

definition paths :: "nat \<Rightarrow> nat \<Rightarrow> nat" where
  "paths m l = (\<Prod>i<l. m + 1 + i)"

text \<open>
  The invariant of the sampler's loop: the count is the number of identities seen, and the
  sample holds as many items as were counted, up to the capacity.
\<close>

definition sampler_inv :: "int \<Rightarrow> sampler \<Rightarrow> bool" where
  "sampler_inv k st \<longleftrightarrow> finite (seen_uris st) \<and> n st = card (seen_uris st)
     \<and> int (length (sample st)) = min (int (n st)) (max k 0)"

text \<open>
  A lookup of the trace that was answered: \<^verbatim>\<open>get_batch\<close> returned a result that passes
  the assertion. The posts of a lookup: what the loop over its result iterates on.
\<close>

definition answered :: "json list \<times> (error + json) \<Rightarrow> bool" where
  "answered l = (case snd l of Inr r \<Rightarrow> py_truthy r | Inl e \<Rightarrow> False)"

definition result_posts :: "json list \<times> (error + json) \<Rightarrow> json list" where
  "result_posts l =
     (case snd l of
        Inr r \<Rightarrow> (case py_iter r of Inr posts \<Rightarrow> posts | Inl e \<Rightarrow> [])
      | Inl e \<Rightarrow> [])"

text \<open>
  The invariant of the loop of \<^verbatim>\<open>hydrate\<close> at index \<open>i\<close> with the batch collected so far:
  the batches looked up and the current batch make up the first \<open>i\<close> identities, every batch
  looked up was full and answered, and the corpus holds the posts of the lookups, counted by
  \<open>hydrated\<close>.
\<close>

definition hydrate_inv :: "json list \<Rightarrow> nat \<Rightarrow> json list \<Rightarrow> hydration \<Rightarrow> bool" where
  "hydrate_inv dat i batch h \<longleftrightarrow>
     i \<le> length dat \<and> length batch \<le> BATCH_SIZE
     \<and> concat (map fst (lookups h)) @ batch = take i (uris_of dat)
     \<and> (\<forall>l\<in>set (lookups h). length (fst l) = BATCH_SIZE \<and> answered l)
     \<and> corpus h = concat (map result_posts (lookups h))
     \<and> hydrated h = length (corpus h)"

text \<open>
  What holds of the state left by an exception: the batches looked up are the first chunks
  of the identities, every lookup but the last was answered, and an empty result of the last
  one is an \<^verbatim>\<open>AssertionError\<close>.
\<close>

definition hydrate_failed :: "json list \<Rightarrow> error \<Rightarrow> hydration \<Rightarrow> bool" where
  "hydrate_failed dat e h \<longleftrightarrow>
     prefix (map fst (lookups h)) (chunks BATCH_SIZE (uris_of dat))
     \<and> (\<forall>l\<in>set (butlast (lookups h)). answered l)
     \<and> (\<forall>r. lookups h \<noteq> [] \<and> snd (last (lookups h)) = Inr r \<and> \<not> py_truthy r
            \<longrightarrow> e = AssertionError)"

text \<open>What holds of the state returned: the batches looked up are all the chunks.\<close>

definition hydrate_done :: "json list \<Rightarrow> hydration \<Rightarrow> bool" where
  "hydrate_done dat h \<longleftrightarrow>
     map fst (lookups h) = chunks BATCH_SIZE (uris_of dat)
     \<and> (\<forall>l\<in>set (lookups h). answered l)
     \<and> corpus h = concat (map result_posts (lookups h))
     \<and> hydrated h = length (corpus h)"

subsection \<open>Example inputs\<close>

text \<open>An event that qualifies, from the originator \<open>d\<close> with record key \<open>r\<close>.\<close>

definition post_event :: "string \<Rightarrow> string \<Rightarrow> json" where
  "post_event d r =
     JObj [(''did'', JStr d),
           (''commit'', JObj [(''operation'', JStr ''create''),
                              (''collection'', JStr ''app.bsky.feed.post''),
                              (''rkey'', JStr r),
                              (''record'', JObj [(''text'', JStr ''hello''),
                                                 (''langs'', JArr [JStr ''en''])])])]"

text \<open>
  Example endpoints: one that always answers 200 with one post, one that always answers
  404, one that answers 429 three times and then 200, one that answers 404 to the first
  request only.
\<close>

definition example_post :: json where
  "example_post = JObj [(''uri'', JStr ''at://a/app.bsky.feed.post/1''), (''cid'', JStr ''bafy''),
                        (''likeCount'', JNum 3)]"

definition endpoint_ok :: endpoint where
  "endpoint_ok i us = Response \<lparr>status_code = 200, retry_after_header = NoRetryAfter,
                                 body = JObj [(''posts'', JArr [example_post])]\<rparr>"

definition endpoint_not_found :: endpoint where
  "endpoint_not_found i us =
     Response \<lparr>status_code = 404, retry_after_header = NoRetryAfter, body = JNull\<rparr>"


definition endpoint_first_not_found :: endpoint where
  "endpoint_first_not_found i us = (if i = 0 then endpoint_not_found i us else endpoint_ok i us)"

text \<open>An entry of the sample document.\<close>

definition sample_entry :: json where
  "sample_entry = JObj [(''uri'', JStr ''at://a/app.bsky.feed.post/1''), (''did'', JStr ''a''),
                        (''rkey'', JStr ''1''), (''record'', JObj [(''text'', JStr ''hello'')])]"

declare chunks.simps [simp del] hydrate_loop.simps [simp del]


section \<open>The sampler's loop\<close>

lemma randint0_le: "randint0 b g \<le> b"
  by (simp add: randint0_def less_Suc_eq_le [symmetric])

lemma randint0_id: "v \<le> b \<Longrightarrow> randint0 b v = v"
  by (simp add: randint0_def)

lemma n_reservoir_update [simp]: "n (reservoir_update k gen it st) = n st + 1"
  by (simp add: reservoir_update_def Let_def)

lemma seen_reservoir_update [simp]: "seen_uris (reservoir_update k gen it st) = seen_uris st"
  by (simp add: reservoir_update_def Let_def)

lemma length_reservoir_update:
  "length (sample (reservoir_update k gen it st))
   = (if int (length (sample st)) < k then length (sample st) + 1 else length (sample st))"
  by (simp add: reservoir_update_def reservoir_place_def Let_def)

lemma process_event_duplicate:
  "event_uri evt = Some u \<Longrightarrow> u \<in> seen_uris st \<Longrightarrow> process_event k gen evt st = Inr st"
  by (auto simp: event_uri_def process_event_def split: sum.splits option.splits prod.splits)

lemma process_event_rejected:
  "event_uri evt = None \<Longrightarrow> process_event k gen evt st = Inr st' \<Longrightarrow> st' = st"
  by (auto simp: event_uri_def process_event_def split: sum.splits option.splits prod.splits)

lemma event_uri_Some:
  "event_uri evt = Some u \<longleftrightarrow>
   (\<exists>commit record d r. validate evt = Inr (Some (commit, record))
      \<and> make_uri evt commit = Inr (u, d, r))"
  by (auto simp: event_uri_def split: sum.splits option.splits prod.splits)

lemma process_event_accepted:
  "validate evt = Inr (Some (commit, record)) \<Longrightarrow> make_uri evt commit = Inr (u, d, r) \<Longrightarrow>
   u \<notin> seen_uris st \<Longrightarrow>
   process_event k gen evt st
   = Inr (reservoir_update k gen \<lparr>uri = u, did = d, rkey = r, record_payload = record\<rparr>
            (st\<lparr>seen_uris := insert u (seen_uris st)\<rparr>))"
  by (simp add: process_event_def)

lemma process_event_fresh:
  "event_uri evt = Some u \<Longrightarrow> u \<notin> seen_uris st \<Longrightarrow>
   \<exists>it. process_event k gen evt st
     = Inr (reservoir_update k gen it (st\<lparr>seen_uris := insert u (seen_uris st)\<rparr>))"
  unfolding event_uri_Some by (blast dest: process_event_accepted)

lemma accepted_uris_Nil [simp]: "accepted_uris [] = []"
  by (simp add: accepted_uris_def)

lemma accepted_uris_Cons:
  "accepted_uris (evt # evts)
   = (case event_uri evt of None \<Rightarrow> accepted_uris evts | Some u \<Rightarrow> u # accepted_uris evts)"
  by (simp add: accepted_uris_def split: option.split)

text \<open>What one iteration does to the state, by the identity of the event.\<close>

lemma process_event_effect:
  assumes "process_event k gen evt st = Inr st'"
  shows "seen_uris st' = seen_uris st \<union> set_option (event_uri evt)
       \<and> n st' = (if set_option (event_uri evt) \<subseteq> seen_uris st then n st else n st + 1)
       \<and> length (sample st')
           = (if set_option (event_uri evt) \<subseteq> seen_uris st \<or> \<not> int (length (sample st)) < k
              then length (sample st) else length (sample st) + 1)"
proof (cases "event_uri evt")
  case None
  then have "st' = st" using assms by (rule process_event_rejected)
  with None show ?thesis by simp
next
  case (Some u)
  show ?thesis
  proof (cases "u \<in> seen_uris st")
    case True
    with Some assms have "st' = st" by (simp add: process_event_duplicate)
    with Some True show ?thesis by auto
  next
    case False
    from process_event_fresh [OF Some False, of k gen] assms
    obtain it where "st' = reservoir_update k gen it (st\<lparr>seen_uris := insert u (seen_uris st)\<rparr>)"
      by auto
    with Some False show ?thesis by (simp add: length_reservoir_update)
  qed
qed

lemma sampler_inv_init: "sampler_inv k sampler_init"
  by (simp add: sampler_inv_def sampler_init_def)

lemma sampler_inv_step:
  assumes "sampler_inv k st" "process_event k gen evt st = Inr st'"
  shows "sampler_inv k st'"
proof -
  note eff = process_event_effect [OF assms(2)]
  show ?thesis
  proof (cases "set_option (event_uri evt) \<subseteq> seen_uris st")
    case True
    with eff assms(1) show ?thesis
      by (auto simp: sampler_inv_def Un_absorb2)
  next
    case False
    then obtain u where u: "event_uri evt = Some u" "u \<notin> seen_uris st"
      by (cases "event_uri evt") auto
    with eff assms(1) show ?thesis
      by (auto simp: sampler_inv_def)
  qed
qed

lemma sample_loop_inv:
  "sampler_inv k st \<Longrightarrow> sample_loop k gen evts st = Inr st' \<Longrightarrow> sampler_inv k st'"
  by (induction evts arbitrary: st) (auto split: sum.splits dest: sampler_inv_step)

lemma sample_loop_seen:
  "sample_loop k gen evts st = Inr st' \<Longrightarrow> seen_uris st' = seen_uris st \<union> set (accepted_uris evts)"
proof (induction evts arbitrary: st)
  case Nil
  then show ?case by simp
next
  case (Cons evt evts)
  then obtain st1 where st1: "process_event k gen evt st = Inr st1" "sample_loop k gen evts st1 = Inr st'"
    by (auto split: sum.splits)
  from Cons.IH [OF st1(2)] process_event_effect [OF st1(1)] show ?case
    by (cases "event_uri evt") (auto simp: accepted_uris_Cons)
qed

lemma sample_loop_append:
  "sample_loop k gen (pre @ post) st
   = (case sample_loop k gen pre st of Inl e \<Rightarrow> Inl e | Inr st1 \<Rightarrow> sample_loop k gen post st1)"
  by (induction pre arbitrary: st) (auto split: sum.splits)

lemma validate_post_event:
  "validate (post_event d r)
   = Inr (Some (JObj [(''operation'', JStr ''create''),
                      (''collection'', JStr ''app.bsky.feed.post''),
                      (''rkey'', JStr r),
                      (''record'', JObj [(''text'', JStr ''hello''),
                                         (''langs'', JArr [JStr ''en''])])],
                JObj [(''text'', JStr ''hello''), (''langs'', JArr [JStr ''en''])]))"
  by (simp add: post_event_def validate_def py_get_def)

lemma make_uri_post_event:
  "make_uri (post_event d r)
     (JObj [(''operation'', JStr ''create''),
            (''collection'', JStr ''app.bsky.feed.post''),
            (''rkey'', JStr r),
            (''record'', JObj [(''text'', JStr ''hello''),
                               (''langs'', JArr [JStr ''en''])])])
   = Inr (''at://'' @ d @ ''/app.bsky.feed.post/'' @ r, d, r)"
  by (simp add: post_event_def make_uri_def py_get_def)

lemma event_uri_post_event:
  "event_uri (post_event d r) = Some (''at://'' @ d @ ''/app.bsky.feed.post/'' @ r)"
  by (simp add: event_uri_def validate_post_event make_uri_post_event)

lemma py_str_add_Inr: "py_str_add s x = Inr t \<longleftrightarrow> (\<exists>y. x = JStr y \<and> t = s @ y)"
  by (cases x) auto

lemma make_uri_Inr:
  assumes "make_uri evt commit = Inr (u, d, r)"
  shows "\<exists>c. py_get evt ''did'' = Inr (JStr d) \<and> py_get commit ''collection'' = Inr (JStr c)
     \<and> py_get commit ''rkey'' = Inr (JStr r) \<and> u = ''at://'' @ d @ ''/'' @ c @ ''/'' @ r"
  using assms
  by (auto simp: make_uri_def py_str_add_Inr split: sum.splits)

text \<open>The loop returns when no event raises in the validation or in building the uri.\<close>

lemma process_event_returns:
  assumes "\<not> isl (validate evt)"
    and "\<And>commit payload. validate evt = Inr (Some (commit, payload)) \<Longrightarrow> \<not> isl (make_uri evt commit)"
  shows "\<exists>st'. process_event k gen evt st = Inr st'"
  using assms
  by (auto simp: process_event_def split: sum.splits option.splits prod.splits)

lemma sample_loop_returns:
  assumes "\<And>evt. evt \<in> set evts \<Longrightarrow> \<not> isl (validate evt)"
    and "\<And>evt commit payload. evt \<in> set evts \<Longrightarrow>
           validate evt = Inr (Some (commit, payload)) \<Longrightarrow> \<not> isl (make_uri evt commit)"
  shows "\<exists>st'. sample_loop k gen evts st = Inr st'"
  using assms
proof (induction evts arbitrary: st)
  case Nil
  show ?case by simp
next
  case (Cons evt evts)
  from process_event_returns [of evt k gen st] Cons.prems
  obtain st1 where st1: "process_event k gen evt st = Inr st1"
    by (metis list.set_intros(1))
  from Cons.IH [of st1] Cons.prems obtain st' where "sample_loop k gen evts st1 = Inr st'"
    by (metis list.set_intros(2))
  with st1 show ?case by simp
qed



text \<open>
  C5. For a capacity \<open>k \<ge> 0\<close>, after any stream of events the sample holds at most \<open>k\<close>
  items, and exactly \<open>min N k\<close> of them, where \<open>N\<close> is the number of distinct identities
  of the accepted events; the same holds after every prefix of the stream, that is, at every
  step.
\<close>

theorem capacity_invariant:
  assumes "0 \<le> k" and "sample_loop k gen evts sampler_init = Inr st"
  shows "int (length (sample st)) \<le> k
    \<and> int (length (sample st)) = min (int (card (set (accepted_uris evts)))) k
    \<and> (\<forall>pre. prefix pre evts \<longrightarrow>
         (\<exists>st1. sample_loop k gen pre sampler_init = Inr st1
            \<and> int (length (sample st1)) \<le> k
            \<and> int (length (sample st1)) = min (int (card (set (accepted_uris pre)))) k))"
proof -
  have run: "int (length (sample s)) \<le> k
      \<and> int (length (sample s)) = min (int (card (set (accepted_uris es)))) k"
    if "sample_loop k gen es sampler_init = Inr s" for es s
  proof -
    from that have "sampler_inv k s"
      by (rule sample_loop_inv [OF sampler_inv_init])
    moreover from that have "seen_uris s = set (accepted_uris es)"
      by (simp add: sample_loop_seen sampler_init_def)
    ultimately show ?thesis
      using assms(1) by (simp add: sampler_inv_def)
  qed
  have "\<exists>st1. sample_loop k gen pre sampler_init = Inr st1
            \<and> int (length (sample st1)) \<le> k
            \<and> int (length (sample st1)) = min (int (card (set (accepted_uris pre)))) k"
    if "prefix pre evts" for pre
  proof -
    from that obtain post where "evts = pre @ post"
      by (auto simp: prefix_def)
    with assms(2) obtain st1 where "sample_loop k gen pre sampler_init = Inr st1"
      by (auto simp: sample_loop_append split: sum.splits)
    with run show ?thesis by blast
  qed
  with run [OF assms(2)] show ?thesis by blast
qed

theorem capacity_invariant_witness:
  "(0::int) \<le> 1
   \<and> sample_loop 1 (\<lambda>i. 0)
        [post_event ''a'' ''1'', post_event ''a'' ''2'', post_event ''a'' ''1''] sampler_init
     = Inr \<lparr>sample = [\<lparr>uri = ''at://a/app.bsky.feed.post/2'', did = ''a'', rkey = ''2'',
                 record_payload = JObj [(''text'', JStr ''hello''), (''langs'', JArr [JStr ''en''])]\<rparr>],
            seen_uris = {''at://a/app.bsky.feed.post/2'', ''at://a/app.bsky.feed.post/1''},
            n = 2, rng_calls = 1\<rparr>
   \<and> int (length (sample
        \<lparr>sample = [\<lparr>uri = ''at://a/app.bsky.feed.post/2'', did = ''a'', rkey = ''2'',
                 record_payload = JObj [(''text'', JStr ''hello''), (''langs'', JArr [JStr ''en''])]\<rparr>],
            seen_uris = {''at://a/app.bsky.feed.post/2'', ''at://a/app.bsky.feed.post/1''},
            n = 2, rng_calls = 1\<rparr>))
     = min (int (card (set (accepted_uris
          [post_event ''a'' ''1'', post_event ''a'' ''2'', post_event ''a'' ''1''])))) 1"
proof -
  have run: "sample_loop 1 (\<lambda>i. 0)
        [post_event ''a'' ''1'', post_event ''a'' ''2'', post_event ''a'' ''1''] sampler_init
     = Inr \<lparr>sample = [\<lparr>uri = ''at://a/app.bsky.feed.post/2'', did = ''a'', rkey = ''2'',
                 record_payload = JObj [(''text'', JStr ''hello''), (''langs'', JArr [JStr ''en''])]\<rparr>],
            seen_uris = {''at://a/app.bsky.feed.post/2'', ''at://a/app.bsky.feed.post/1''},
            n = 2, rng_calls = 1\<rparr>"
    by (simp add: validate_post_event make_uri_post_event process_event_def reservoir_update_def
        reservoir_place_def randint0_def sampler_init_def)
  from capacity_invariant [OF _ run] run show ?thesis
    by simp
qed

text \<open>
  C6. The identity of a qualifying event is the string \<open>at://did/collection/rkey\<close>. An
  event whose identity was seen before leaves the whole state unchanged: it is not counted
  and not offered to the reservoir; an event whose identity is new is counted once and its
  identity recorded. So of two events of a stream with the same identity, the second changes
  nothing.
\<close>

theorem dedup_first_only:
  "(validate evt = Inr (Some (commit, record)) \<and> make_uri evt commit = Inr (u, d, r) \<longrightarrow>
      (\<exists>c. py_get evt ''did'' = Inr (JStr d) \<and> py_get commit ''collection'' = Inr (JStr c)
         \<and> py_get commit ''rkey'' = Inr (JStr r)
         \<and> u = ''at://'' @ d @ ''/'' @ c @ ''/'' @ r
         \<and> event_uri evt = Some u))
   \<and> (event_uri evt = Some u \<and> u \<in> seen_uris st \<longrightarrow> process_event k gen evt st = Inr st)
   \<and> (event_uri evt = Some u \<and> u \<notin> seen_uris st \<longrightarrow>
        (\<exists>st'. process_event k gen evt st = Inr st' \<and> n st' = n st + 1
           \<and> seen_uris st' = insert u (seen_uris st)))
   \<and> (event_uri e1 = Some u \<and> event_uri e2 = Some u
        \<and> sample_loop k gen (pre @ e1 # mid) sampler_init = Inr st2 \<longrightarrow>
        sample_loop k gen (pre @ e1 # mid @ [e2]) sampler_init = Inr st2)"
proof (intro conjI impI)
  assume a: "validate evt = Inr (Some (commit, record)) \<and> make_uri evt commit = Inr (u, d, r)"
  then have "event_uri evt = Some u" by (auto simp: event_uri_Some)
  with a make_uri_Inr [of evt commit u d r]
  show "\<exists>c. py_get evt ''did'' = Inr (JStr d) \<and> py_get commit ''collection'' = Inr (JStr c)
         \<and> py_get commit ''rkey'' = Inr (JStr r)
         \<and> u = ''at://'' @ d @ ''/'' @ c @ ''/'' @ r
         \<and> event_uri evt = Some u"
    by auto
next
  assume "event_uri evt = Some u \<and> u \<in> seen_uris st"
  then show "process_event k gen evt st = Inr st"
    by (simp add: process_event_duplicate)
next
  assume a: "event_uri evt = Some u \<and> u \<notin> seen_uris st"
  with process_event_fresh [of evt u st k gen]
  show "\<exists>st'. process_event k gen evt st = Inr st' \<and> n st' = n st + 1
           \<and> seen_uris st' = insert u (seen_uris st)"
    by auto
next
  assume a: "event_uri e1 = Some u \<and> event_uri e2 = Some u
        \<and> sample_loop k gen (pre @ e1 # mid) sampler_init = Inr st2"
  then have "sample_loop k gen (pre @ e1 # mid) sampler_init = Inr st2" by simp
  then have "seen_uris st2 = seen_uris sampler_init \<union> set (accepted_uris (pre @ e1 # mid))"
    by (rule sample_loop_seen)
  with a have "u \<in> seen_uris st2"
    by (simp add: accepted_uris_def map_filter_def)
  with a have "process_event k gen e2 st2 = Inr st2"
    by (simp add: process_event_duplicate)
  with a have "sample_loop k gen ((pre @ e1 # mid) @ [e2]) sampler_init = Inr st2"
    unfolding sample_loop_append [of k gen "pre @ e1 # mid" "[e2]"] by simp
  then show "sample_loop k gen (pre @ e1 # mid @ [e2]) sampler_init = Inr st2"
    by simp
qed

theorem dedup_first_only_witness:
  "validate (post_event ''a'' ''1'')
     = Inr (Some (JObj [(''operation'', JStr ''create''),
                        (''collection'', JStr ''app.bsky.feed.post''),
                        (''rkey'', JStr ''1''),
                        (''record'', JObj [(''text'', JStr ''hello''),
                                           (''langs'', JArr [JStr ''en''])])],
                  JObj [(''text'', JStr ''hello''), (''langs'', JArr [JStr ''en''])]))
   \<and> make_uri (post_event ''a'' ''1'')
         (JObj [(''operation'', JStr ''create''),
                (''collection'', JStr ''app.bsky.feed.post''),
                (''rkey'', JStr ''1''),
                (''record'', JObj [(''text'', JStr ''hello''),
                                   (''langs'', JArr [JStr ''en''])])])
     = Inr (''at://a/app.bsky.feed.post/1'', ''a'', ''1'')
   \<and> event_uri (post_event ''a'' ''1'') = Some ''at://a/app.bsky.feed.post/1''
   \<and> ''at://a/app.bsky.feed.post/1'' \<notin> seen_uris sampler_init
   \<and> sample_loop 1 (\<lambda>i. 0) ([] @ post_event ''a'' ''1'' # []) sampler_init
     = Inr \<lparr>sample = [\<lparr>uri = ''at://a/app.bsky.feed.post/1'', did = ''a'', rkey = ''1'',
                 record_payload = JObj [(''text'', JStr ''hello''), (''langs'', JArr [JStr ''en''])]\<rparr>],
            seen_uris = {''at://a/app.bsky.feed.post/1''}, n = 1, rng_calls = 0\<rparr>
   \<and> ''at://a/app.bsky.feed.post/1'' \<in> seen_uris
        \<lparr>sample = [\<lparr>uri = ''at://a/app.bsky.feed.post/1'', did = ''a'', rkey = ''1'',
                 record_payload = JObj [(''text'', JStr ''hello''), (''langs'', JArr [JStr ''en''])]\<rparr>],
            seen_uris = {''at://a/app.bsky.feed.post/1''}, n = 1, rng_calls = 0\<rparr>
   \<and> process_event 1 (\<lambda>i. 0) (post_event ''a'' ''1'')
        \<lparr>sample = [\<lparr>uri = ''at://a/app.bsky.feed.post/1'', did = ''a'', rkey = ''1'',
                 record_payload = JObj [(''text'', JStr ''hello''), (''langs'', JArr [JStr ''en''])]\<rparr>],
            seen_uris = {''at://a/app.bsky.feed.post/1''}, n = 1, rng_calls = 0\<rparr>
     = Inr \<lparr>sample = [\<lparr>uri = ''at://a/app.bsky.feed.post/1'', did = ''a'', rkey = ''1'',
                 record_payload = JObj [(''text'', JStr ''hello''), (''langs'', JArr [JStr ''en''])]\<rparr>],
            seen_uris = {''at://a/app.bsky.feed.post/1''}, n = 1, rng_calls = 0\<rparr>
   \<and> sample_loop 1 (\<lambda>i. 0) ([] @ post_event ''a'' ''1'' # [] @ [post_event ''a'' ''1''])
        sampler_init
     = Inr \<lparr>sample = [\<lparr>uri = ''at://a/app.bsky.feed.post/1'', did = ''a'', rkey = ''1'',
                 record_payload = JObj [(''text'', JStr ''hello''), (''langs'', JArr [JStr ''en''])]\<rparr>],
            seen_uris = {''at://a/app.bsky.feed.post/1''}, n = 1, rng_calls = 0\<rparr>"
proof -
  let ?e = "post_event ''a'' ''1''" and ?u = "''at://a/app.bsky.feed.post/1''"
  let ?st = "\<lparr>sample = [\<lparr>uri = ?u, did = ''a'', rkey = ''1'',
                 record_payload = JObj [(''text'', JStr ''hello''), (''langs'', JArr [JStr ''en''])]\<rparr>],
            seen_uris = {?u}, n = 1, rng_calls = 0\<rparr>"
  have uri: "event_uri ?e = Some ?u"
    using event_uri_post_event [of "''a''" "''1''"] by simp
  have fresh: "?u \<notin> seen_uris sampler_init"
    by (simp add: sampler_init_def)
  have first: "sample_loop 1 (\<lambda>i. 0) ([] @ ?e # []) sampler_init = Inr ?st"
    by (simp add: validate_post_event make_uri_post_event process_event_def reservoir_update_def
        sampler_init_def)
  have counted: "\<exists>st'. process_event 1 (\<lambda>i. 0) ?e sampler_init = Inr st'
      \<and> n st' = n sampler_init + 1 \<and> seen_uris st' = insert ?u (seen_uris sampler_init)"
    using dedup_first_only [where evt = ?e and u = ?u and st = sampler_init and k = 1
        and gen = "\<lambda>i. 0"] uri fresh by blast
  have again: "process_event 1 (\<lambda>i. 0) ?e ?st = Inr ?st"
    using dedup_first_only [where evt = ?e and u = ?u and st = ?st and k = 1
        and gen = "\<lambda>i. 0"] uri by simp
  have second: "sample_loop 1 (\<lambda>i. 0) ([] @ ?e # [] @ [?e]) sampler_init = Inr ?st"
    using dedup_first_only [where ?e1.0 = ?e and ?e2.0 = ?e and u = ?u and pre = "[]"
        and mid = "[]" and k = 1 and gen = "\<lambda>i. 0" and ?st2.0 = ?st] uri first by blast
  from uri fresh first counted again second show ?thesis
    by (simp add: validate_post_event make_uri_post_event)
qed

text \<open>
  C10. After any stream of events, and after each of its prefixes, the count \<open>n\<close> is the
  number of identities in \<open>seen_uris\<close>, which is the set of the identities of all accepted
  events, whatever the capacity \<open>k\<close>; each iteration either leaves both unchanged or inserts
  one new identity and increments the count by one.
\<close>

theorem count_matches_seen:
  assumes "sample_loop k gen evts sampler_init = Inr st"
  shows "finite (seen_uris st) \<and> n st = card (seen_uris st)
    \<and> seen_uris st = set (accepted_uris evts)
    \<and> (\<forall>pre. prefix pre evts \<longrightarrow>
         (\<exists>st1. sample_loop k gen pre sampler_init = Inr st1 \<and> n st1 = card (seen_uris st1)
            \<and> seen_uris st1 = set (accepted_uris pre)))
    \<and> (\<forall>evt s s'. process_event k gen evt s = Inr s' \<longrightarrow>
         (n s' = n s \<and> seen_uris s' = seen_uris s)
         \<or> (\<exists>u. u \<notin> seen_uris s \<and> seen_uris s' = insert u (seen_uris s) \<and> n s' = n s + 1))"
proof -
  have run: "finite (seen_uris s) \<and> n s = card (seen_uris s) \<and> seen_uris s = set (accepted_uris es)"
    if "sample_loop k gen es sampler_init = Inr s" for es s
  proof -
    from that have "sampler_inv k s"
      by (rule sample_loop_inv [OF sampler_inv_init])
    moreover from that have "seen_uris s = set (accepted_uris es)"
      by (simp add: sample_loop_seen sampler_init_def)
    ultimately show ?thesis
      by (simp add: sampler_inv_def)
  qed
  have pre: "\<exists>st1. sample_loop k gen pre sampler_init = Inr st1 \<and> n st1 = card (seen_uris st1)
            \<and> seen_uris st1 = set (accepted_uris pre)"
    if "prefix pre evts" for pre
  proof -
    from that obtain post where "evts = pre @ post"
      by (auto simp: prefix_def)
    with assms obtain st1 where "sample_loop k gen pre sampler_init = Inr st1"
      by (auto simp: sample_loop_append split: sum.splits)
    with run show ?thesis by blast
  qed
  have step: "(n s' = n s \<and> seen_uris s' = seen_uris s)
         \<or> (\<exists>u. u \<notin> seen_uris s \<and> seen_uris s' = insert u (seen_uris s) \<and> n s' = n s + 1)"
    if "process_event k gen evt s = Inr s'" for evt s s'
    using process_event_effect [OF that]
    by (cases "event_uri evt") (auto simp: Un_absorb2)
  from run [OF assms] pre step show ?thesis by blast
qed

theorem count_matches_seen_witness:
  "sample_loop 1 (\<lambda>i. 0)
        [post_event ''a'' ''1'', post_event ''a'' ''2'', post_event ''a'' ''1''] sampler_init
     = Inr \<lparr>sample = [\<lparr>uri = ''at://a/app.bsky.feed.post/2'', did = ''a'', rkey = ''2'',
                 record_payload = JObj [(''text'', JStr ''hello''), (''langs'', JArr [JStr ''en''])]\<rparr>],
            seen_uris = {''at://a/app.bsky.feed.post/2'', ''at://a/app.bsky.feed.post/1''},
            n = 2, rng_calls = 1\<rparr>
   \<and> n \<lparr>sample = [\<lparr>uri = ''at://a/app.bsky.feed.post/2'', did = ''a'', rkey = ''2'',
                 record_payload = JObj [(''text'', JStr ''hello''), (''langs'', JArr [JStr ''en''])]\<rparr>],
            seen_uris = {''at://a/app.bsky.feed.post/2'', ''at://a/app.bsky.feed.post/1''},
            n = 2, rng_calls = 1\<rparr>
     = card (set (accepted_uris
          [post_event ''a'' ''1'', post_event ''a'' ''2'', post_event ''a'' ''1'']))
   \<and> (1::int) < int (card (set (accepted_uris
          [post_event ''a'' ''1'', post_event ''a'' ''2'', post_event ''a'' ''1''])))"
proof -
  have run: "sample_loop 1 (\<lambda>i. 0)
        [post_event ''a'' ''1'', post_event ''a'' ''2'', post_event ''a'' ''1''] sampler_init
     = Inr \<lparr>sample = [\<lparr>uri = ''at://a/app.bsky.feed.post/2'', did = ''a'', rkey = ''2'',
                 record_payload = JObj [(''text'', JStr ''hello''), (''langs'', JArr [JStr ''en''])]\<rparr>],
            seen_uris = {''at://a/app.bsky.feed.post/2'', ''at://a/app.bsky.feed.post/1''},
            n = 2, rng_calls = 1\<rparr>"
    by (simp add: validate_post_event make_uri_post_event process_event_def reservoir_update_def
        reservoir_place_def randint0_def sampler_init_def)
  from count_matches_seen [OF run] run show ?thesis
    by (simp add: accepted_uris_def event_uri_post_event)
qed

text \<open>
  C3. An event whose commit says \<open>create\<close> but carries no record makes the sampler raise
  \<^verbatim>\<open>AttributeError\<close>, and a qualifying event without \<open>did\<close> makes it raise
  \<^verbatim>\<open>TypeError\<close>: neither is rejected.
\<close>

theorem malformed_event_raises:
  "reservoir_sample 100 (\<lambda>i. 0) [JObj [(''commit'', JObj [(''operation'', JStr ''create'')])]]
     = Inl AttributeError
   \<and> reservoir_sample 100 (\<lambda>i. 0)
       [JObj [(''commit'', JObj [(''operation'', JStr ''create''),
                                 (''collection'', JStr ''app.bsky.feed.post''),
                                 (''rkey'', JStr ''3k'' ),
                                 (''record'', JObj [(''text'', JStr ''hello''),
                                                    (''langs'', JArr [JStr ''en''])])])]]
     = Inl TypeError"
  by (simp add: reservoir_sample_def process_event_def validate_def make_uri_def py_get_def)


section \<open>The reservoir is a uniform sample\<close>

lemma length_reservoir_place [simp]: "length (reservoir_place k p it smp) = length smp"
  by (simp add: reservoir_place_def)

lemma set_reservoir_place: "set (reservoir_place k p it smp) \<subseteq> insert it (set smp)"
  by (auto simp: reservoir_place_def dest: set_update_subset_insert [THEN subsetD])


lemma paths_0 [simp]: "paths m 0 = 1"
  by (simp add: paths_def)

lemma paths_Suc: "paths m (Suc l) = (m + 1) * paths (m + 1) l"
  by (simp add: paths_def prod.lessThan_Suc_shift del: prod.lessThan_Suc)

lemma paths_pos [simp]: "0 < paths m l"
  by (simp add: paths_def)

lemma length_concat_const:
  "(\<And>p. p \<in> set ps \<Longrightarrow> length (f p) = c) \<Longrightarrow> length (concat (map f ps)) = length ps * c"
  by (induction ps) auto

lemma length_outcomes_full:
  "k \<le> int (length smp) \<Longrightarrow> length (outcomes k smp m its) = paths m (length its)"
proof (induction its arbitrary: smp m)
  case Nil
  then show ?case by simp
next
  case (Cons it its)
  have "length (outcomes k (reservoir_place k p it smp) (m + 1) its) = paths (m + 1) (length its)" for p
    using Cons.prems by (intro Cons.IH) simp
  then have "length (concat (map (\<lambda>p. outcomes k (reservoir_place k p it smp) (m + 1) its) [0..<Suc m]))
      = length [0..<Suc m] * paths (m + 1) (length its)"
    by (intro length_concat_const) simp
  with Cons.prems show ?case
    by (simp add: paths_Suc)
qed

lemma outcomes_subset:
  "s \<in> set (outcomes k smp m its) \<Longrightarrow> set s \<subseteq> set smp \<union> set its"
proof (induction its arbitrary: smp m)
  case Nil
  then show ?case by simp
next
  case (Cons it its)
  show ?case
  proof (cases "int (length smp) < k")
    case True
    with Cons.prems have "s \<in> set (outcomes k (smp @ [it]) (m + 1) its)" by simp
    from Cons.IH [OF this] show ?thesis by auto
  next
    case False
    with Cons.prems obtain p where "s \<in> set (outcomes k (reservoir_place k p it smp) (m + 1) its)"
      by auto
    from Cons.IH [OF this] set_reservoir_place [of k p it smp] show ?thesis by auto
  qed
qed

lemma present_count_concat:
  "present_count x (concat (map f ps)) = (\<Sum>p\<leftarrow>ps. present_count x (f p))"
  by (induction ps) (simp_all add: present_count_def)

lemma present_count_absent:
  "x \<notin> set smp \<Longrightarrow> x \<notin> set its \<Longrightarrow> present_count x (outcomes k smp m its) = 0"
  using outcomes_subset [of _ k smp m its] by (auto simp: present_count_def filter_empty_conv)

lemma sum_list_upt_delta:
  "j < m \<Longrightarrow> (\<Sum>p\<leftarrow>[0..<m]. if p = j then 0 else (c::nat)) = (m - 1) * c"
proof -
  assume j: "j < m"
  have "(\<Sum>p\<leftarrow>[0..<m]. if p = j then 0 else c) = (\<Sum>p\<in>{0..<m}. if p = j then 0 else c)"
    by (simp add: interv_sum_list_conv_sum_set_nat)
  also have "\<dots> = (\<Sum>p\<in>{0..<m} - {j}. c)"
    by (intro sum.mono_neutral_cong_right) auto
  also have "\<dots> = (m - 1) * c"
    using j by simp
  finally show ?thesis .
qed

lemma sum_list_upt_below:
  "K \<le> m \<Longrightarrow> (\<Sum>p\<leftarrow>[0..<m]. if p < K then (c::nat) else 0) = K * c"
proof -
  assume K: "K \<le> m"
  have "(\<Sum>p\<leftarrow>[0..<m]. if p < K then c else 0) = (\<Sum>p\<in>{0..<m}. if p < K then c else 0)"
    by (simp add: interv_sum_list_conv_sum_set_nat)
  also have "\<dots> = (\<Sum>p\<in>{0..<K}. c)"
    using K by (intro sum.mono_neutral_cong_right) auto
  also have "\<dots> = K * c"
    by simp
  finally show ?thesis .
qed

lemma sum_list_mult_const: "(a::nat) * (\<Sum>p\<leftarrow>ps. f p) = (\<Sum>p\<leftarrow>ps. a * f p)"
  by (induction ps) (simp_all add: algebra_simps)

lemma distinct_reservoir_place:
  "distinct smp \<Longrightarrow> it \<notin> set smp \<Longrightarrow> distinct (reservoir_place k p it smp)"
  by (simp add: reservoir_place_def distinct_list_update)

lemma survive_step:
  assumes "distinct smp" "y \<in> set smp" "it \<noteq> y"
  shows "y \<in> set (reservoir_place k p it smp) \<longleftrightarrow> \<not> (int p < k \<and> p < length smp \<and> smp ! p = y)"
proof -
  from assms(2) obtain j where j: "j < length smp" "smp ! j = y"
    by (auto simp: in_set_conv_nth)
  show ?thesis
  proof (cases "int p < k \<and> p < length smp")
    case True
    show ?thesis
    proof (cases "p = j")
      case True
      have "y \<notin> set (smp[j := it])"
      proof
        assume "y \<in> set (smp[j := it])"
        then obtain i where i: "i < length smp" "smp[j := it] ! i = y"
          by (auto simp: in_set_conv_nth)
        with assms(3) j have "i \<noteq> j" by auto
        with i have "smp ! i = y" by simp
        with j i \<open>i \<noteq> j\<close> assms(1) show False
          by (auto simp: distinct_conv_nth)
      qed
      with True \<open>int p < k \<and> p < length smp\<close> j show ?thesis
        by (simp add: reservoir_place_def)
    next
      case False
      with j have "smp[p := it] ! j = y" by simp
      with j have "y \<in> set (smp[p := it])"
        by (metis length_list_update nth_mem)
      moreover from False j True assms(1) have "smp ! p \<noteq> y"
        by (auto simp: distinct_conv_nth)
      ultimately show ?thesis using True
        by (simp add: reservoir_place_def)
    qed
  next
    case False
    then show ?thesis using assms(2)
      by (auto simp: reservoir_place_def list_update_beyond)
  qed
qed

lemma outcomes_full_step:
  "\<not> int (length smp) < k \<Longrightarrow>
   outcomes k smp m (it # its)
   = concat (map (\<lambda>p. outcomes k (reservoir_place k p it smp) (m + 1) its) [0..<Suc m])"
  by (simp del: upt_Suc)

lemma survival:
  assumes "int (length smp) = k" "length smp \<le> m" "distinct smp" "distinct its"
    "set smp \<inter> set its = {}" "y \<in> set smp"
  shows "(m + length its) * present_count y (outcomes k smp m its)
         = m * length (outcomes k smp m its)"
  using assms
proof (induction its arbitrary: smp m)
  case Nil
  then show ?case by (simp add: present_count_def)
next
  case (Cons it its)
  let ?T = "paths (m + 1) (length its)"
  let ?f = "\<lambda>p. outcomes k (reservoir_place k p it smp) (m + 1) its"
  from Cons.prems have ity: "it \<noteq> y" and itsmp: "it \<notin> set smp" and yits: "y \<notin> set its"
    by auto
  from Cons.prems obtain j where j: "j < length smp" "smp ! j = y"
    by (auto simp: in_set_conv_nth)
  have uniq: "p < length smp \<Longrightarrow> smp ! p = y \<Longrightarrow> p = j" for p
    using j Cons.prems(3) by (auto simp: distinct_conv_nth)
  have full: "\<not> int (length smp) < k" using Cons.prems by simp
  have len: "length (?f p) = ?T" for p
    using Cons.prems by (intro length_outcomes_full) simp
  have branch: "(m + 1 + length its) * present_count y (?f p)
                = (if p = j then 0 else (m + 1) * ?T)" for p
  proof (cases "p = j")
    case True
    with j Cons.prems have "y \<notin> set (reservoir_place k p it smp)"
      using survive_step [of smp y it k p] ity by auto
    then have "present_count y (?f p) = 0"
      using yits by (rule present_count_absent)
    with True show ?thesis by simp
  next
    case False
    with uniq have "y \<in> set (reservoir_place k p it smp)"
      using survive_step [of smp y it k p] ity Cons.prems by auto
    moreover have "set (reservoir_place k p it smp) \<inter> set its = {}"
      using set_reservoir_place [of k p it smp] Cons.prems by auto
    ultimately have "(m + 1 + length its) * present_count y (?f p) = (m + 1) * length (?f p)"
      using Cons.prems itsmp
      by (intro Cons.IH) (simp_all add: distinct_reservoir_place)
    with False len show ?thesis by simp
  qed
  have "(m + length (it # its)) * present_count y (outcomes k smp m (it # its))
        = (m + 1 + length its) * (\<Sum>p\<leftarrow>[0..<Suc m]. present_count y (?f p))"
    by (simp add: outcomes_full_step [OF full] present_count_concat del: upt_Suc outcomes.simps)
  also have "\<dots> = (\<Sum>p\<leftarrow>[0..<Suc m]. if p = j then 0 else (m + 1) * ?T)"
    unfolding sum_list_mult_const branch ..
  also have "\<dots> = m * ((m + 1) * ?T)"
    using j Cons.prems(2) sum_list_upt_delta [of j "Suc m" "(m + 1) * ?T"] by simp
  also have "\<dots> = m * length (outcomes k smp m (it # its))"
    using full length_outcomes_full [of k smp m "it # its"] by (simp add: paths_Suc)
  finally show ?case .
qed

lemma entry:
  assumes "int (length smp) = k" "length smp \<le> m" "distinct smp" "distinct its"
    "set smp \<inter> set its = {}" "x \<in> set its"
  shows "(m + length its) * present_count x (outcomes k smp m its)
         = length smp * length (outcomes k smp m its)"
  using assms
proof (induction its arbitrary: smp m)
  case Nil
  then show ?case by simp
next
  case (Cons it its)
  let ?T = "paths (m + 1) (length its)"
  let ?f = "\<lambda>p. outcomes k (reservoir_place k p it smp) (m + 1) its"
  let ?K = "length smp"
  have full: "\<not> int (length smp) < k" using Cons.prems by simp
  from Cons.prems have itsmp: "it \<notin> set smp" and itits: "it \<notin> set its" and dits: "distinct its"
    by auto
  have len: "length (?f p) = ?T" for p
    using Cons.prems by (intro length_outcomes_full) simp
  have disj: "set (reservoir_place k p it smp) \<inter> set its = {}" for p
    using set_reservoir_place [of k p it smp] Cons.prems by auto
  have dist: "distinct (reservoir_place k p it smp)" for p
    using Cons.prems itsmp by (simp add: distinct_reservoir_place)
  have total: "length (outcomes k smp m (it # its)) = (m + 1) * ?T"
    using full length_outcomes_full [of k smp m "it # its"] by (simp add: paths_Suc)
  have start: "(m + length (it # its)) * present_count x (outcomes k smp m (it # its))
        = (\<Sum>p\<leftarrow>[0..<Suc m]. (m + 1 + length its) * present_count x (?f p))"
    by (simp add: outcomes_full_step [OF full] present_count_concat sum_list_mult_const
          del: upt_Suc outcomes.simps)
  show ?case
  proof (cases "x = it")
    case True
    have branch: "(m + 1 + length its) * present_count x (?f p)
                  = (if p < ?K then (m + 1) * ?T else 0)" for p
    proof (cases "p < ?K")
      case inside: True
      with Cons.prems(1) have "reservoir_place k p it smp = smp[p := it]"
        by (simp add: reservoir_place_def)
      with inside True have "x \<in> set (reservoir_place k p it smp)"
        by (simp add: set_update_memI)
      then have "(m + 1 + length its) * present_count x (?f p) = (m + 1) * length (?f p)"
        using Cons.prems dits disj dist by (intro survival) simp_all
      with inside len show ?thesis by simp
    next
      case outside: False
      with Cons.prems(1) have "reservoir_place k p it smp = smp"
        by (simp add: reservoir_place_def)
      with True itsmp have "x \<notin> set (reservoir_place k p it smp)" by simp
      then have "present_count x (?f p) = 0"
        using True itits by (intro present_count_absent) simp_all
      with outside show ?thesis by simp
    qed
    note start
    also have "(\<Sum>p\<leftarrow>[0..<Suc m]. (m + 1 + length its) * present_count x (?f p))
          = ?K * ((m + 1) * ?T)"
      unfolding branch using Cons.prems(2) by (intro sum_list_upt_below) simp
    also have "\<dots> = ?K * length (outcomes k smp m (it # its))"
      by (simp only: total)
    finally show ?thesis .
  next
    case False
    with Cons.prems have xin: "x \<in> set its" by simp
    have branch: "(m + 1 + length its) * present_count x (?f p) = ?K * ?T" for p
    proof -
      have "(m + 1 + length its) * present_count x (?f p)
            = length (reservoir_place k p it smp) * length (?f p)"
        using Cons.prems dits disj dist xin by (intro Cons.IH) simp_all
      with len show ?thesis by simp
    qed
    note start
    also have "(\<Sum>p\<leftarrow>[0..<Suc m]. (m + 1 + length its) * present_count x (?f p))
          = (m + 1) * (?K * ?T)"
      unfolding branch by (simp add: sum_list_triv del: upt_Suc)
    also have "\<dots> = ?K * length (outcomes k smp m (it # its))"
      by (simp only: total mult.left_commute)
    finally show ?thesis .
  qed
qed

lemma outcomes_append_fill:
  "int (length smp + length pre) \<le> k \<Longrightarrow>
   outcomes k smp m (pre @ its) = outcomes k (smp @ pre) (m + length pre) its"
proof (induction pre arbitrary: smp m)
  case Nil
  then show ?case by simp
next
  case (Cons it pre)
  then have "outcomes k smp m ((it # pre) @ its) = outcomes k (smp @ [it]) (m + 1) (pre @ its)"
    by simp
  also have "\<dots> = outcomes k ((smp @ [it]) @ pre) (m + 1 + length pre) its"
    using Cons.prems by (intro Cons.IH) simp
  finally show ?case by simp
qed

lemma outcomes_nonempty: "outcomes k smp m its \<noteq> []"
proof (induction its arbitrary: smp m)
  case Nil
  show ?case by simp
next
  case (Cons it its)
  show ?case
  proof (cases "int (length smp) < k")
    case True
    then show ?thesis using Cons.IH by simp
  next
    case False
    have "outcomes k (reservoir_place k 0 it smp) (m + 1) its \<noteq> []"
      by (rule Cons.IH)
    then show ?thesis
      by (simp add: outcomes_full_step [OF False] upt_conv_Cons del: upt_Suc outcomes.simps)
  qed
qed

text \<open>
  The final samples listed by \<open>outcomes\<close> are those of the runs of the sampler: the run
  for any generator ends in one of them, and each of them is the end of the run for some
  generator. On a stream of qualifying events with distinct identities, the loop is such a run.
\<close>

lemma sample_reservoir_update:
  "sample (reservoir_update k gen it st)
   = (if int (length (sample st)) < k then sample st @ [it]
      else reservoir_place k (randint0 (n st) (gen (rng_calls st))) it (sample st))"
  by (simp add: reservoir_update_def Let_def)

lemma feed_in_outcomes:
  "sample (feed k gen its st) \<in> set (outcomes k (sample st) (n st) its)"
proof (induction its arbitrary: st)
  case Nil
  show ?case by simp
next
  case (Cons it its)
  let ?st1 = "reservoir_update k gen it st"
  have IH: "sample (feed k gen its ?st1) \<in> set (outcomes k (sample ?st1) (n st + 1) its)"
    using Cons.IH [of ?st1] by simp
  show ?case
  proof (cases "int (length (sample st)) < k")
    case True
    with IH show ?thesis by (simp add: sample_reservoir_update)
  next
    case False
    let ?p = "randint0 (n st) (gen (rng_calls st))"
    from False IH have "sample (feed k gen its ?st1)
        \<in> set (outcomes k (reservoir_place k ?p it (sample st)) (n st + 1) its)"
      by (simp add: sample_reservoir_update)
    moreover have "?p \<in> set [0..<Suc (n st)]"
      using randint0_le [of "n st" "gen (rng_calls st)"]
      by (simp add: less_Suc_eq_le del: upt_Suc)
    ultimately show ?thesis
      unfolding feed.simps outcomes_full_step [OF False] by (auto simp del: upt_Suc)
  qed
qed

lemma rng_calls_reservoir_update: "rng_calls st \<le> rng_calls (reservoir_update k gen it st)"
  by (simp add: reservoir_update_def Let_def)

lemma reservoir_update_cong:
  "gen (rng_calls st) = gen' (rng_calls st) \<Longrightarrow>
   reservoir_update k gen it st = reservoir_update k gen' it st"
  by (simp add: reservoir_update_def Let_def)

lemma feed_cong:
  "(\<And>i. rng_calls st \<le> i \<Longrightarrow> gen i = gen' i) \<Longrightarrow> feed k gen its st = feed k gen' its st"
proof (induction its arbitrary: st)
  case Nil
  show ?case by simp
next
  case (Cons it its)
  have same: "reservoir_update k gen it st = reservoir_update k gen' it st"
    using Cons.prems by (intro reservoir_update_cong) simp
  have "feed k gen its (reservoir_update k gen it st)
      = feed k gen' its (reservoir_update k gen it st)"
    using Cons.prems rng_calls_reservoir_update [of st k gen it]
    by (intro Cons.IH) simp
  with same show ?case by simp
qed

lemma outcomes_reached:
  "s \<in> set (outcomes k (sample st) (n st) its) \<Longrightarrow> \<exists>gen. sample (feed k gen its st) = s"
proof (induction its arbitrary: st)
  case Nil
  then show ?case by simp
next
  case (Cons it its)
  show ?case
  proof (cases "int (length (sample st)) < k")
    case True
    let ?st1 = "reservoir_update k (\<lambda>i. 0) it st"
    from True Cons.prems have "s \<in> set (outcomes k (sample ?st1) (n ?st1) its)"
      by (simp add: sample_reservoir_update)
    from Cons.IH [OF this] obtain gen where gen: "sample (feed k gen its ?st1) = s" ..
    from True have "reservoir_update k gen it st = ?st1"
      by (simp add: reservoir_update_def Let_def)
    with gen show ?thesis by (intro exI [of _ gen]) simp
  next
    case False
    from Cons.prems obtain p where p: "p \<le> n st"
      "s \<in> set (outcomes k (reservoir_place k p it (sample st)) (n st + 1) its)"
      unfolding outcomes_full_step [OF False] by (auto simp: less_Suc_eq_le simp del: upt_Suc)
    let ?c = "rng_calls st"
    let ?st1 = "reservoir_update k (\<lambda>i. p) it st"
    from False p(1) have st1: "sample ?st1 = reservoir_place k p it (sample st)"
      "n ?st1 = n st + 1" "rng_calls ?st1 = ?c + 1"
      by (simp_all add: reservoir_update_def Let_def randint0_id)
    with p(2) have "s \<in> set (outcomes k (sample ?st1) (n ?st1) its)" by simp
    from Cons.IH [OF this] obtain gen1 where gen1: "sample (feed k gen1 its ?st1) = s" ..
    define gen where "gen = gen1(?c := p)"
    have at: "gen ?c = p" and above: "\<And>i. ?c + 1 \<le> i \<Longrightarrow> gen i = gen1 i"
      by (simp_all add: gen_def)
    from at have "reservoir_update k gen it st = ?st1"
      by (intro reservoir_update_cong) simp
    moreover from above have "feed k gen its ?st1 = feed k gen1 its ?st1"
      by (intro feed_cong) (simp add: st1)
    ultimately have "sample (feed k gen (it # its) st) = s"
      using gen1 by simp
    then show ?thesis by blast
  qed
qed

lemma outcomes_are_runs:
  "set (outcomes k [] 0 its) = {sample (feed k gen its sampler_init) | gen. True}"
proof -
  have "sample sampler_init = []" "n sampler_init = 0" by (simp_all add: sampler_init_def)
  then show ?thesis
    using feed_in_outcomes [of k _ its sampler_init] outcomes_reached [of _ k sampler_init its]
    by auto
qed

lemma reservoir_update_seen:
  "reservoir_update k gen it (st\<lparr>seen_uris := S\<rparr>) = (reservoir_update k gen it st)\<lparr>seen_uris := S\<rparr>"
  by (simp add: reservoir_update_def Let_def)

lemma feed_seen: "feed k gen its (st\<lparr>seen_uris := S\<rparr>) = (feed k gen its st)\<lparr>seen_uris := S\<rparr>"
  by (induction its arbitrary: st) (simp_all add: reservoir_update_seen)

lemma event_item_Some:
  "event_item evt = Some it \<longleftrightarrow>
   (\<exists>commit record u d r. validate evt = Inr (Some (commit, record))
      \<and> make_uri evt commit = Inr (u, d, r)
      \<and> it = \<lparr>uri = u, did = d, rkey = r, record_payload = record\<rparr>)"
  by (auto simp: event_item_def split: sum.splits option.splits prod.splits)

lemma sample_loop_feed:
  assumes "map event_item evts = map Some its" "distinct (map uri its)"
    "set (map uri its) \<inter> seen_uris st = {}"
  shows "sample_loop k gen evts st
         = Inr ((feed k gen its st)\<lparr>seen_uris := seen_uris st \<union> set (map uri its)\<rparr>)"
  using assms
proof (induction its arbitrary: evts st)
  case Nil
  then show ?case by simp
next
  case (Cons it its)
  from Cons.prems(1) obtain evt rest where evts: "evts = evt # rest"
    "event_item evt = Some it" "map event_item rest = map Some its"
    by (cases evts) auto
  from evts(2) obtain commit payload d r where ev: "validate evt = Inr (Some (commit, payload))"
    "make_uri evt commit = Inr (uri it, d, r)"
    "it = \<lparr>uri = uri it, did = d, rkey = r, record_payload = payload\<rparr>"
    by (auto simp: event_item_Some)
  from Cons.prems(3) have fresh: "uri it \<notin> seen_uris st" by simp
  let ?st1 = "reservoir_update k gen it (st\<lparr>seen_uris := insert (uri it) (seen_uris st)\<rparr>)"
  from process_event_accepted [OF ev(1,2) fresh, of k gen] ev(3)
  have step: "process_event k gen evt st = Inr ?st1" by simp
  have "sample_loop k gen rest ?st1
      = Inr ((feed k gen its ?st1)\<lparr>seen_uris := seen_uris ?st1 \<union> set (map uri its)\<rparr>)"
    using evts(3) Cons.prems(2,3) by (intro Cons.IH) auto
  with step evts(1) show ?case
    by (simp add: reservoir_update_seen feed_seen)
qed

lemma uniform_count:
  assumes "0 \<le> k" "k \<le> int (length its)" "distinct its" "x \<in> set its"
  shows "length its * present_count x (outcomes k [] 0 its)
         = nat k * length (outcomes k [] 0 its)"
proof -
  let ?pre = "take (nat k) its" and ?post = "drop (nat k) its"
  have lpre: "length ?pre = nat k" using assms by simp
  have split: "outcomes k [] 0 its = outcomes k ?pre (nat k) ?post"
    using outcomes_append_fill [of "[]" ?pre k 0 ?post] lpre assms(1) by simp
  have d: "distinct ?pre" "distinct ?post" "set ?pre \<inter> set ?post = {}"
    using assms(3) by (simp_all add: set_take_disj_set_drop_if_distinct)
  have N: "nat k + length ?post = length its" using assms by simp
  from assms(4) have "x \<in> set ?pre \<or> x \<in> set ?post"
    by (metis Un_iff append_take_drop_id set_append)
  then have "(nat k + length ?post) * present_count x (outcomes k ?pre (nat k) ?post)
             = nat k * length (outcomes k ?pre (nat k) ?post)"
  proof
    assume "x \<in> set ?pre"
    then show ?thesis
      using d lpre assms(1) by (intro survival) simp_all
  next
    assume "x \<in> set ?post"
    then have "(nat k + length ?post) * present_count x (outcomes k ?pre (nat k) ?post)
             = length ?pre * length (outcomes k ?pre (nat k) ?post)"
      using d lpre assms(1) by (intro entry) simp_all
    with lpre show ?thesis by (simp only:)
  qed
  with N split show ?thesis by (simp only:)
qed


text \<open>
  From the draws to the raw outputs: when the size of a range divides \<open>R\<close>, each value of the
  range is the reduction of the same number of raw outputs, so the fraction of the sequences
  of raw outputs on which the sampler ends with an item is the fraction of the sequences of
  draws on which it does.
\<close>

lemma sum_list_mod_block:
  fixes f :: "nat \<Rightarrow> nat"
  shows "(\<Sum>g\<leftarrow>[0..<q * t]. f (g mod q)) = t * (\<Sum>p\<leftarrow>[0..<q]. f p)"
proof (induction t)
  case 0
  show ?case by simp
next
  case (Suc t)
  have "q * Suc t = q * t + q" by simp
  then have "[0..<q * Suc t] = [0..<q * t] @ [q * t..<q * t + q]"
    using upt_add_eq_append [of 0 "q * t" q] by (simp only: le0)
  moreover have "[q * t..<q * t + q] = map (\<lambda>p. p + q * t) [0..<q]"
    using map_add_upt [of "q * t" q] by (simp add: add.commute)
  ultimately have "(\<Sum>g\<leftarrow>[0..<q * Suc t]. f (g mod q))
      = (\<Sum>g\<leftarrow>[0..<q * t]. f (g mod q)) + (\<Sum>p\<leftarrow>[0..<q]. f ((p + q * t) mod q))"
    by (simp add: comp_def)
  also have "(\<Sum>p\<leftarrow>[0..<q]. f ((p + q * t) mod q)) = (\<Sum>p\<leftarrow>[0..<q]. f p)"
    by (intro arg_cong [where f = sum_list] map_cong) auto
  finally show ?case using Suc.IH by simp
qed

lemma sum_list_mod:
  fixes f :: "nat \<Rightarrow> nat"
  assumes "q dvd R"
  shows "q * (\<Sum>g\<leftarrow>[0..<R]. f (g mod q)) = R * (\<Sum>p\<leftarrow>[0..<q]. f p)"
proof -
  from assms obtain t where "R = q * t" by (auto simp: dvd_def)
  then show ?thesis by (simp add: sum_list_mod_block)
qed

lemma sum_list_swap:
  fixes F :: "'a \<Rightarrow> 'b \<Rightarrow> nat"
  shows "(\<Sum>b\<leftarrow>bs. \<Sum>a\<leftarrow>as. F a b) = (\<Sum>a\<leftarrow>as. \<Sum>b\<leftarrow>bs. F a b)"
  by (induction bs) (simp_all add: sum_list_addf)

lemma length_filter_sum: "length (filter P xs) = (\<Sum>x\<leftarrow>xs. if P x then 1 else 0)"
  by (induction xs) simp_all

lemma length_filter_concat:
  "length (filter P (concat xss)) = (\<Sum>xs\<leftarrow>xss. length (filter P xs))"
  by (induction xss) simp_all

lemma length_filter_map_sum:
  "length (filter P (map g xs)) = (\<Sum>x\<leftarrow>xs. if P (g x) then 1 else 0)"
  by (induction xs) simp_all

lemma count_n_lists_Suc:
  "length (filter P (List.n_lists (Suc l) xs))
   = (\<Sum>y\<leftarrow>xs. length (filter (\<lambda>ys. P (y # ys)) (List.n_lists l xs)))"
proof -
  have "length (filter P (List.n_lists (Suc l) xs))
      = (\<Sum>ys\<leftarrow>List.n_lists l xs. length (filter P (map (\<lambda>y. y # ys) xs)))"
    by (simp add: length_filter_concat comp_def del: filter_map)
  also have "\<dots> = (\<Sum>ys\<leftarrow>List.n_lists l xs. \<Sum>y\<leftarrow>xs. if P (y # ys) then 1 else 0)"
    unfolding length_filter_map_sum ..
  also have "\<dots> = (\<Sum>y\<leftarrow>xs. \<Sum>ys\<leftarrow>List.n_lists l xs. if P (y # ys) then 1 else 0)"
    by (rule sum_list_swap)
  finally show ?thesis by (simp add: length_filter_sum)
qed

lemma gen_of_append_at: "gen_of (pre @ g # gs) (length pre) = g"
  by (simp add: gen_of_def)

lemma sum_list_scale:
  fixes f :: "'a \<Rightarrow> nat"
  shows "(\<Sum>x\<leftarrow>xs. f x) * (a * b) = a * (\<Sum>x\<leftarrow>xs. f x * b)"
  by (induction xs) (simp_all add: algebra_simps)

lemma raw_count_full:
  assumes "k \<le> int (length (sample st))" "rng_calls st = length pre"
    "\<And>i. i < length its \<Longrightarrow> (n st + 1 + i) dvd R"
  shows "length (filter (\<lambda>gs. x \<in> set (sample (feed k (gen_of (pre @ gs)) its st)))
                        (List.n_lists (length its) [0..<R]))
           * paths (n st) (length its)
         = present_count x (outcomes k (sample st) (n st) its) * R ^ length its"
  using assms
proof (induction its arbitrary: st pre)
  case Nil
  show ?case by (simp add: present_count_def)
next
  case (Cons it its)
  let ?m = "n st" and ?l = "length its"
  let ?st = "\<lambda>p. st\<lparr>sample := reservoir_place k p it (sample st), n := n st + 1,
                       rng_calls := rng_calls st + 1\<rparr>"
  let ?cnt = "\<lambda>g. length (filter (\<lambda>gs. x \<in> set (sample (feed k (gen_of ((pre @ [g]) @ gs)) its
                                                           (?st (randint0 ?m g)))))
                                 (List.n_lists ?l [0..<R]))"
  let ?pc = "\<lambda>p. present_count x (outcomes k (reservoir_place k p it (sample st)) (?m + 1) its)"
  have full: "\<not> int (length (sample st)) < k" using Cons.prems(1) by simp
  have step: "feed k (gen_of (pre @ g # gs)) (it # its) st
      = feed k (gen_of ((pre @ [g]) @ gs)) its (?st (randint0 ?m g))" for g gs
    using full Cons.prems(2)
    by (simp add: reservoir_update_def Let_def gen_of_append_at)
  have IH: "?cnt g * paths (?m + 1) ?l = ?pc (randint0 ?m g) * R ^ ?l" for g
  proof -
    have "?cnt g * paths (n (?st (randint0 ?m g))) ?l
        = present_count x (outcomes k (sample (?st (randint0 ?m g))) (n (?st (randint0 ?m g))) its)
          * R ^ ?l"
    proof (rule Cons.IH)
      show "k \<le> int (length (sample (?st (randint0 ?m g))))"
        using Cons.prems(1) by simp
      show "rng_calls (?st (randint0 ?m g)) = length (pre @ [g])"
        using Cons.prems(2) by simp
      show "(n (?st (randint0 ?m g)) + 1 + i) dvd R" if "i < length its" for i
        using Cons.prems(3) [of "Suc i"] that by simp
    qed
    then show ?thesis by simp
  qed
  have dvd: "(?m + 1) dvd R" using Cons.prems(3) [of 0] by simp
  define C where "C g = ?cnt g" for g
  define pc where "pc p = ?pc p" for p
  define P' where "P' = paths (?m + 1) ?l"
  define W where "W = R ^ ?l"
  have IH': "C g * P' = pc (g mod (?m + 1)) * W" for g
    using IH [of g] by (simp add: C_def pc_def P'_def W_def randint0_def)
  have "length (filter (\<lambda>gs. x \<in> set (sample (feed k (gen_of (pre @ gs)) (it # its) st)))
                       (List.n_lists (length (it # its)) [0..<R]))
        = (\<Sum>g\<leftarrow>[0..<R]. C g)"
    unfolding C_def by (simp only: length_Cons count_n_lists_Suc step)
  moreover have "paths ?m (length (it # its)) = (?m + 1) * P'"
    by (simp add: paths_Suc P'_def)
  ultimately have "length (filter (\<lambda>gs. x \<in> set (sample (feed k (gen_of (pre @ gs)) (it # its) st)))
                       (List.n_lists (length (it # its)) [0..<R]))
          * paths ?m (length (it # its))
        = (\<Sum>g\<leftarrow>[0..<R]. C g) * ((?m + 1) * P')"
    by (simp only:)
  also have "\<dots> = (?m + 1) * (\<Sum>g\<leftarrow>[0..<R]. C g * P')"
    by (rule sum_list_scale)
  also have "\<dots> = (?m + 1) * (\<Sum>g\<leftarrow>[0..<R]. pc (g mod (?m + 1)) * W)"
    by (simp only: IH')
  also have "\<dots> = R * (\<Sum>p\<leftarrow>[0..<?m + 1]. pc p * W)"
    using dvd by (rule sum_list_mod)
  also have "\<dots> = (\<Sum>p\<leftarrow>[0..<?m + 1]. pc p) * (R * W)"
    by (rule sum_list_scale [symmetric])
  also have "R * W = R ^ length (it # its)"
    by (simp add: W_def)
  also have "(\<Sum>p\<leftarrow>[0..<?m + 1]. pc p)
      = present_count x (outcomes k (sample st) ?m (it # its))"
    unfolding pc_def
    by (simp add: outcomes_full_step [OF full] present_count_concat comp_def
        del: upt_Suc outcomes.simps)
  finally show ?case .
qed

lemma feed_append: "feed k gen (as @ bs) st = feed k gen bs (feed k gen as st)"
  by (induction as arbitrary: st) simp_all

lemma feed_fill:
  "int (length (sample st) + length pre) \<le> k \<Longrightarrow>
   feed k gen pre st = st\<lparr>sample := sample st @ pre, n := n st + length pre\<rparr>"
proof (induction pre arbitrary: st)
  case Nil
  show ?case by simp
next
  case (Cons it pre)
  let ?st1 = "st\<lparr>sample := sample st @ [it], n := n st + 1\<rparr>"
  from Cons.prems have "reservoir_update k gen it st = ?st1"
    by (simp add: reservoir_update_def Let_def)
  moreover have "feed k gen pre ?st1 = ?st1\<lparr>sample := sample ?st1 @ pre, n := n ?st1 + length pre\<rparr>"
    using Cons.prems by (intro Cons.IH) simp
  ultimately show ?case by simp
qed

lemma raw_count:
  assumes "0 \<le> k" "k \<le> int (length its)" "distinct its" "x \<in> set its"
    "\<forall>m\<in>{1..length its}. m dvd R"
  shows "length its * length (filter (\<lambda>gs. x \<in> set (final_sample k its gs))
                                       (raw_sequences R (number_of_draws k its)))
         = nat k * R ^ number_of_draws k its"
proof -
  let ?K = "nat k"
  let ?pre = "take ?K its" and ?post = "drop ?K its"
  let ?st = "sampler_init\<lparr>sample := ?pre, n := ?K\<rparr>"
  let ?D = "number_of_draws k its"
  let ?P = "paths ?K ?D"
  have lpre: "length ?pre = ?K" using assms(1,2) by simp
  have lpost: "length ?post = ?D" by (simp add: number_of_draws_def)
  have fill: "feed k gen ?pre sampler_init = ?st" for gen
    using feed_fill [of sampler_init ?pre k gen] lpre assms(1)
    by (simp add: sampler_init_def)
  have final: "final_sample k its gs = sample (feed k (gen_of ([] @ gs)) ?post ?st)" for gs
  proof -
    have "feed k (gen_of gs) (?pre @ ?post) sampler_init = feed k (gen_of gs) ?post ?st"
      unfolding feed_append fill ..
    then show ?thesis by (simp add: final_sample_def)
  qed
  have dvd: "(n ?st + 1 + i) dvd R" if "i < length ?post" for i
  proof -
    from that assms(1,2) have "?K + 1 + i \<in> {1..length its}" by auto
    with assms(5) show ?thesis by simp
  qed
  have "length (filter (\<lambda>gs. x \<in> set (sample (feed k (gen_of ([] @ gs)) ?post ?st)))
                       (List.n_lists (length ?post) [0..<R]))
          * paths (n ?st) (length ?post)
        = present_count x (outcomes k (sample ?st) (n ?st) ?post) * R ^ length ?post"
    using dvd lpre assms(1) by (intro raw_count_full) (simp_all add: sampler_init_def)
  then have raw: "length (filter (\<lambda>gs. x \<in> set (final_sample k its gs)) (raw_sequences R ?D)) * ?P
        = present_count x (outcomes k ?pre ?K ?post) * R ^ ?D"
    unfolding final [symmetric] lpost raw_sequences_def by simp
  have split: "outcomes k [] 0 its = outcomes k ?pre ?K ?post"
    using outcomes_append_fill [of "[]" ?pre k 0 ?post] lpre assms(1) by simp
  have total: "length (outcomes k ?pre ?K ?post) = ?P"
    using length_outcomes_full [of k ?pre ?K ?post] lpre lpost assms(1) by simp
  have "length its * present_count x (outcomes k [] 0 its) = ?K * length (outcomes k [] 0 its)"
    using assms(1-4) by (rule uniform_count)
  then have uni: "length its * present_count x (outcomes k ?pre ?K ?post) = ?K * ?P"
    unfolding split total .
  have "(length its * length (filter (\<lambda>gs. x \<in> set (final_sample k its gs))
                                      (raw_sequences R ?D))) * ?P
      = (length its * present_count x (outcomes k ?pre ?K ?post)) * R ^ ?D"
    using raw by (simp add: mult.assoc)
  also have "\<dots> = (?K * R ^ ?D) * ?P"
    unfolding uni by (simp add: mult.assoc mult.left_commute mult.commute)
  finally show ?thesis
    using paths_pos [of ?K ?D] by simp
qed

lemma feed_full_calls:
  "k \<le> int (length (sample st)) \<Longrightarrow>
   rng_calls (feed k gen its st) = rng_calls st + length its"
proof (induction its arbitrary: st)
  case Nil
  show ?case by simp
next
  case (Cons it its)
  let ?st1 = "reservoir_update k gen it st"
  from Cons.prems have "k \<le> int (length (sample ?st1))" "rng_calls ?st1 = rng_calls st + 1"
    by (simp_all add: reservoir_update_def Let_def)
  with Cons.IH [of ?st1] show ?case by simp
qed

lemma draws_made: "rng_calls (feed k gen its sampler_init) = number_of_draws k its"
proof (cases "nat k \<le> length its")
  case True
  let ?pre = "take (nat k) its" and ?post = "drop (nat k) its"
  let ?st = "sampler_init\<lparr>sample := ?pre, n := nat k\<rparr>"
  show ?thesis
  proof (cases "0 \<le> k")
    case nonneg: True
    with True have "feed k gen ?pre sampler_init = ?st"
      using feed_fill [of sampler_init ?pre k gen] by (simp add: sampler_init_def)
    then have "feed k gen (?pre @ ?post) sampler_init = feed k gen ?post ?st"
      by (simp only: feed_append)
    moreover have "rng_calls (feed k gen ?post ?st) = rng_calls ?st + length ?post"
      using True nonneg by (intro feed_full_calls) simp
    ultimately show ?thesis
      by (simp add: number_of_draws_def sampler_init_def)
  next
    case False
    then have "rng_calls (feed k gen its sampler_init) = rng_calls sampler_init + length its"
      by (intro feed_full_calls) simp
    with False show ?thesis
      by (simp add: number_of_draws_def sampler_init_def)
  qed
next
  case False
  then have "feed k gen its sampler_init
      = sampler_init\<lparr>sample := sample sampler_init @ its, n := n sampler_init + length its\<rparr>"
    by (intro feed_fill) (simp add: sampler_init_def)
  with False show ?thesis
    by (simp add: number_of_draws_def sampler_init_def)
qed

text \<open>Such a range of raw outputs exists for every stream: the factorial of its length.\<close>

lemma raw_range_exists:
  "(\<forall>m\<in>{1..length its}. m dvd (fact (length its) :: nat)) \<and> 0 < (fact (length its) :: nat)"
  by (auto intro: dvd_fact)

lemma two_range_sizes_divide: "\<forall>m\<in>{1..length [a, b :: item]}. m dvd (4::nat)"
proof
  fix m assume "m \<in> {1..length [a, b]}"
  then have "m = 1 \<or> m = 2" by auto
  then show "m dvd 4" by auto
qed

text \<open>
  C2. For a stream of \<open>N\<close> distinct accepted items and a capacity \<open>0 \<le> k \<le> N\<close>, each item
  of the stream is in the final sample of the sampler with probability exactly \<open>k / N\<close>, the
  raw outputs of the generator being independent and uniform over a range \<open>[0, R)\<close> that
  the sizes \<open>1, \<dots>, N\<close> of the ranges drawn from divide; the stream is any list of distinct
  items, so the probability does not depend on the order of arrival.
\<close>

theorem uniform_inclusion:
  assumes "0 \<le> k" "k \<le> int (length its)" "distinct its" "x \<in> set its"
    "\<forall>m\<in>{1..length its}. m dvd R" "0 < R"
  shows "inclusion_probability R k its x = of_int k / of_nat (length its)
    \<and> (\<forall>its'. distinct its' \<and> set its' = set its \<longrightarrow>
          inclusion_probability R k its' x = inclusion_probability R k its x)"
proof -
  have prob: "inclusion_probability R k ys x = of_int k / of_nat (length ys)"
    if "k \<le> int (length ys)" "distinct ys" "x \<in> set ys" "\<forall>m\<in>{1..length ys}. m dvd R" for ys
  proof -
    let ?D = "number_of_draws k ys"
    let ?c = "length (filter (\<lambda>gs. x \<in> set (final_sample k ys gs)) (raw_sequences R ?D))"
    have t: "length (raw_sequences R ?D) = R ^ ?D"
      by (simp add: raw_sequences_def length_n_lists)
    have N: "0 < length ys" using that(3) by (cases ys) auto
    have "length ys * ?c = nat k * R ^ ?D"
      using assms(1) that by (rule raw_count)
    then have "(of_nat (length ys * ?c) :: rat) = of_nat (nat k * R ^ ?D)" by simp
    then have "(of_nat (length ys) :: rat) * of_nat ?c = of_int k * of_nat (R ^ ?D)"
      using assms(1) by simp
    with N assms(6) show ?thesis
      unfolding inclusion_probability_def t by (simp add: field_simps)
  qed
  have "inclusion_probability R k its' x = inclusion_probability R k its x"
    if "distinct its' \<and> set its' = set its" for its'
  proof -
    from that assms(3) have "length its' = length its"
      by (metis distinct_card)
    with that assms prob [of its'] prob [of its] show ?thesis by simp
  qed
  with prob [OF assms(2,3,4,5)] show ?thesis by blast
qed

theorem uniform_inclusion_witness:
  "(0::int) \<le> 1
   \<and> 1 \<le> int (length [\<lparr>uri = ''a'', did = ''d'', rkey = ''1'', record_payload = JNull\<rparr>,
                        \<lparr>uri = ''b'', did = ''d'', rkey = ''2'', record_payload = JNull\<rparr>])
   \<and> distinct [\<lparr>uri = ''a'', did = ''d'', rkey = ''1'', record_payload = JNull\<rparr>,
               \<lparr>uri = ''b'', did = ''d'', rkey = ''2'', record_payload = JNull\<rparr>]
   \<and> (1::nat) dvd 4 \<and> (2::nat) dvd 4 \<and> (0::nat) < 4
   \<and> inclusion_probability 4 1
        [\<lparr>uri = ''a'', did = ''d'', rkey = ''1'', record_payload = JNull\<rparr>,
         \<lparr>uri = ''b'', did = ''d'', rkey = ''2'', record_payload = JNull\<rparr>]
        \<lparr>uri = ''b'', did = ''d'', rkey = ''2'', record_payload = JNull\<rparr> = 1 / 2"
proof -
  let ?a = "\<lparr>uri = ''a'', did = ''d'', rkey = ''1'', record_payload = JNull\<rparr>"
  let ?b = "\<lparr>uri = ''b'', did = ''d'', rkey = ''2'', record_payload = JNull\<rparr>"
  have range: "\<forall>m\<in>{1..length [?a, ?b]}. m dvd (4::nat)"
    by (rule two_range_sizes_divide)
  have "inclusion_probability 4 1 [?a, ?b] ?b = of_int 1 / of_nat (length [?a, ?b])"
    using uniform_inclusion [of 1 "[?a, ?b]" ?b 4, THEN conjunct1] range by simp
  then show ?thesis by simp
qed


section \<open>The retry policy of \<^verbatim>\<open>get_batch\<close>\<close>






section \<open>The partition into chunks\<close>

lemma chunks_Nil [simp]: "chunks b [] = []"
  by (simp add: chunks.simps)


lemma chunks_append_full:
  "0 < b \<Longrightarrow> length c = b \<Longrightarrow> chunks b (c @ xs) = c # chunks b xs"
  by (subst chunks.simps) auto

lemma chunks_concat_full:
  "0 < b \<Longrightarrow> \<forall>c\<in>set cs. length c = b \<Longrightarrow> chunks b (concat cs @ xs) = cs @ chunks b xs"
  by (induction cs) (simp_all add: chunks_append_full)

lemma chunks_short: "0 < length c \<Longrightarrow> length c \<le> b \<Longrightarrow> chunks b c = [c]"
  by (subst chunks.simps) (cases c; simp)





lemma chunks_full_prefix:
  assumes "0 < b" "\<forall>c\<in>set cs. length c = b" "prefix (concat cs) xs"
  shows "prefix cs (chunks b xs)"
proof -
  from assms(3) obtain ys where "xs = concat cs @ ys" by (auto simp: prefix_def)
  with assms(1,2) show ?thesis by (simp add: chunks_concat_full)
qed

lemma chunks_exact:
  assumes "0 < b" "\<forall>c\<in>set cs. length c = b" "0 < length c'" "length c' \<le> b"
  shows "chunks b (concat cs @ c') = cs @ [c']"
proof -
  have "chunks b (concat cs @ c') = cs @ chunks b c'"
    using assms(1,2) by (rule chunks_concat_full)
  also have "chunks b c' = [c']"
    using assms(3,4) by (rule chunks_short)
  finally show ?thesis .
qed

lemma chunks_exact_full:
  assumes "0 < b" "\<forall>c\<in>set cs. length c = b"
  shows "chunks b (concat cs) = cs"
  using chunks_concat_full [OF assms, of "[]"] by simp


section \<open>The loop of \<^verbatim>\<open>hydrate\<close>\<close>

lemma add_posts_Inr:
  "add_posts posts h = Inr h' \<Longrightarrow>
   corpus h' = corpus h @ posts \<and> hydrated h' = hydrated h + length posts
   \<and> lookups h' = lookups h \<and> http h' = http h"
proof (induction posts arbitrary: h)
  case Nil
  then show ?case by simp
next
  case (Cons post posts)
  then obtain it where "add_posts posts (h\<lparr>corpus := corpus h @ [post], hydrated := hydrated h + 1\<rparr>) = Inr h'"
    by (auto split: sum.splits)
  from Cons.IH [OF this] show ?case by simp
qed

lemma add_posts_Inl:
  "add_posts posts h = Inl (e, h') \<Longrightarrow> lookups h' = lookups h"
proof (induction posts arbitrary: h)
  case Nil
  then show ?case by simp
next
  case (Cons post posts)
  show ?case
  proof (cases "make_item post")
    case (Inl e')
    with Cons.prems show ?thesis by simp
  next
    case (Inr it)
    with Cons.prems
    have "add_posts posts (h\<lparr>corpus := corpus h @ [post], hydrated := hydrated h + 1\<rparr>) = Inl (e, h')"
      by simp
    from Cons.IH [OF this] show ?thesis by simp
  qed
qed

lemma lookup_batch_Inr:
  assumes "lookup_batch ep batch h = Inr h'"
  shows "\<exists>r posts. lookups h' = lookups h @ [(batch, Inr r)] \<and> py_truthy r
     \<and> py_iter r = Inr posts \<and> corpus h' = corpus h @ posts
     \<and> hydrated h' = hydrated h + length posts"
proof -
  obtain res s' where g: "get_batch ep batch default_retries default_base_backoff (http h) = (res, s')"
    by (cases "get_batch ep batch default_retries default_base_backoff (http h)")
  let ?h1 = "h\<lparr>http := s', lookups := lookups h @ [(batch, res)]\<rparr>"
  from assms g obtain r posts where r: "res = Inr r" "py_truthy r" "py_iter r = Inr posts"
    "add_posts posts ?h1 = Inr h'"
    by (auto simp: lookup_batch_def Let_def split: sum.splits if_splits)
  from add_posts_Inr [OF r(4)] r show ?thesis by simp
qed

lemma lookup_batch_Inl:
  assumes "lookup_batch ep batch h = Inl (e, h')"
  shows "\<exists>res. lookups h' = lookups h @ [(batch, res)]
     \<and> (\<forall>r. res = Inr r \<and> \<not> py_truthy r \<longrightarrow> e = AssertionError)"
proof -
  obtain res s' where g: "get_batch ep batch default_retries default_base_backoff (http h) = (res, s')"
    by (cases "get_batch ep batch default_retries default_base_backoff (http h)")
  let ?h1 = "h\<lparr>http := s', lookups := lookups h @ [(batch, res)]\<rparr>"
  have l1: "lookups ?h1 = lookups h @ [(batch, res)]" by simp
  show ?thesis
  proof (cases res)
    case (Inl e')
    with assms g show ?thesis by (auto simp: lookup_batch_def Let_def)
  next
    case (Inr r)
    show ?thesis
    proof (cases "py_truthy r")
      case False
      with assms g Inr show ?thesis by (auto simp: lookup_batch_def Let_def)
    next
      case True
      show ?thesis
      proof (cases "py_iter r")
        case (Inl e')
        with assms g Inr True show ?thesis by (auto simp: lookup_batch_def Let_def)
      next
        case posts: (Inr posts)
        with assms g Inr True have "add_posts posts ?h1 = Inl (e, h')"
          by (simp add: lookup_batch_def Let_def)
        from add_posts_Inl [OF this] Inr True show ?thesis by simp
      qed
    qed
  qed
qed

lemma BATCH_SIZE_pos: "0 < BATCH_SIZE"
  by (simp add: BATCH_SIZE_def)

lemma hydrate_inv_init: "hydrate_inv dat 0 [] hydration_init"
  by (simp add: hydrate_inv_def hydration_init_def)

lemma hydrate_inv_prefix:
  assumes "hydrate_inv dat i batch h"
  shows "prefix (map fst (lookups h)) (chunks BATCH_SIZE (uris_of dat))"
proof -
  from assms have "concat (map fst (lookups h)) @ batch = take i (uris_of dat)"
    by (simp add: hydrate_inv_def)
  then have "prefix (concat (map fst (lookups h))) (take i (uris_of dat))"
    by (metis prefixI)
  then have "prefix (concat (map fst (lookups h))) (uris_of dat)"
    using take_is_prefix prefix_order.order_trans by blast
  moreover from assms have "\<forall>c\<in>set (map fst (lookups h)). length c = BATCH_SIZE"
    by (simp add: hydrate_inv_def)
  ultimately show ?thesis
    using BATCH_SIZE_pos by (intro chunks_full_prefix)
qed

lemma hydrate_inv_failed:
  assumes "hydrate_inv dat i batch h"
  shows "hydrate_failed dat e h"
proof -
  from assms have all: "\<forall>l\<in>set (lookups h). answered l"
    by (simp add: hydrate_inv_def)
  then have "\<forall>l\<in>set (butlast (lookups h)). answered l"
    by (auto dest: in_set_butlastD)
  moreover have "e = AssertionError"
    if "lookups h \<noteq> []" "snd (last (lookups h)) = Inr r" "\<not> py_truthy r" for r
  proof -
    from that(1) all have "answered (last (lookups h))" by simp
    with that(2,3) show ?thesis by (simp add: answered_def)
  qed
  ultimately show ?thesis
    using hydrate_inv_prefix [OF assms] by (auto simp: hydrate_failed_def)
qed

lemma hydrate_inv_step:
  assumes "hydrate_inv dat i batch h" "i < length dat" "length batch < BATCH_SIZE"
    "py_get (dat ! i) ''uri'' = Inr u"
  shows "hydrate_inv dat (i + 1) (batch @ [u]) h"
proof -
  from assms(2,4) have "uris_of dat ! i = u"
    by (simp add: uris_of_def)
  with assms(2) have "take (i + 1) (uris_of dat) = take i (uris_of dat) @ [u]"
    by (simp add: take_Suc_conv_app_nth uris_of_def)
  with assms(1,2,3) show ?thesis
    by (simp add: hydrate_inv_def)
qed

lemma hydrate_inv_lookup:
  assumes "hydrate_inv dat i batch h" "length batch = BATCH_SIZE"
    "lookup_batch ep batch h = Inr h'"
  shows "hydrate_inv dat i [] h'"
proof -
  from lookup_batch_Inr [OF assms(3)] obtain r posts where
    r: "lookups h' = lookups h @ [(batch, Inr r)]" "py_truthy r" "py_iter r = Inr posts"
      "corpus h' = corpus h @ posts" "hydrated h' = hydrated h + length posts"
    by blast
  from r(2) have "answered (batch, Inr r)" by (simp add: answered_def)
  moreover from r(3) have "result_posts (batch, Inr r) = posts" by (simp add: result_posts_def)
  ultimately show ?thesis
    using assms(1,2) r by (simp add: hydrate_inv_def)
qed

lemma hydrate_failed_lookup:
  assumes "hydrate_inv dat i batch h"
    "length batch = BATCH_SIZE \<or> (0 < length batch \<and> i = length dat)"
    "lookup_batch ep batch h = Inl (e, h')"
  shows "hydrate_failed dat e h'"
proof -
  from lookup_batch_Inl [OF assms(3)] obtain res where
    res: "lookups h' = lookups h @ [(batch, res)]"
      "\<forall>r. res = Inr r \<and> \<not> py_truthy r \<longrightarrow> e = AssertionError"
    by blast
  from assms(1) have inv: "concat (map fst (lookups h)) @ batch = take i (uris_of dat)"
    "\<forall>c\<in>set (map fst (lookups h)). length c = BATCH_SIZE" "length batch \<le> BATCH_SIZE"
    "\<forall>l\<in>set (lookups h). answered l"
    by (simp_all add: hydrate_inv_def)
  have "prefix (map fst (lookups h) @ [batch]) (chunks BATCH_SIZE (uris_of dat))"
  proof -
    from assms(2) show ?thesis
    proof
      assume full: "length batch = BATCH_SIZE"
      from inv(1) have "prefix (concat (map fst (lookups h) @ [batch])) (take i (uris_of dat))"
        by simp
      then have "prefix (concat (map fst (lookups h) @ [batch])) (uris_of dat)"
        using take_is_prefix prefix_order.order_trans by blast
      moreover from inv(2) full have "\<forall>c\<in>set (map fst (lookups h) @ [batch]). length c = BATCH_SIZE"
        by simp
      ultimately show ?thesis
        using BATCH_SIZE_pos by (intro chunks_full_prefix)
    next
      assume last: "0 < length batch \<and> i = length dat"
      with inv(1) have "uris_of dat = concat (map fst (lookups h)) @ batch"
        by (simp add: uris_of_def)
      moreover have "chunks BATCH_SIZE (concat (map fst (lookups h)) @ batch)
          = map fst (lookups h) @ [batch]"
        using chunks_exact [OF BATCH_SIZE_pos, of "map fst (lookups h)" batch] inv(2,3) last
        by simp
      ultimately show ?thesis by simp
    qed
  qed
  with res inv(4) show ?thesis
    by (simp add: hydrate_failed_def)
qed

lemma hydrate_loop_inv:
  assumes "hydrate_inv dat i batch h"
  shows "(hydrate_loop ep dat i batch h = Inr (batch', h') \<longrightarrow> hydrate_inv dat (length dat) batch' h')
       \<and> (hydrate_loop ep dat i batch h = Inl (e, h') \<longrightarrow> hydrate_failed dat e h')"
  using assms
proof (induction ep dat i batch h rule: hydrate_loop.induct)
  case (1 ep dat i batch h)
  note inv = \<open>hydrate_inv dat i batch h\<close>
  show ?case
  proof (cases "i < length dat")
    case False
    with inv have "i = length dat" by (simp add: hydrate_inv_def)
    with False inv show ?thesis
      by (subst (1 2) hydrate_loop.simps) auto
  next
    case more: True
    show ?thesis
    proof (cases "length batch < BATCH_SIZE")
      case room: True
      show ?thesis
      proof (cases "py_get (dat ! i) ''uri''")
        case (Inl e')
        with more room hydrate_inv_failed [OF inv] show ?thesis
          by (subst (1 2) hydrate_loop.simps) auto
      next
        case (Inr u)
        from hydrate_inv_step [OF inv more room Inr]
        have "hydrate_inv dat (i + 1) (batch @ [u]) h" .
        from "1.IH"(1) [OF more room Inr this] more room Inr show ?thesis
          by (subst (1 2) hydrate_loop.simps) auto
      qed
    next
      case full: False
      with inv have len: "length batch = BATCH_SIZE" by (simp add: hydrate_inv_def)
      show ?thesis
      proof (cases "lookup_batch ep batch h")
        case (Inl eh)
        obtain e1 h1 where eh: "eh = (e1, h1)" by (cases eh)
        from hydrate_failed_lookup [OF inv _ Inl [unfolded eh]] len
        have "hydrate_failed dat e1 h1" by simp
        with more full Inl eh show ?thesis
          by (subst (1 2) hydrate_loop.simps) auto
      next
        case (Inr h1)
        from hydrate_inv_lookup [OF inv len Inr] have inv1: "hydrate_inv dat i [] h1" .
        show ?thesis
        proof (cases "print_progress (int i) (int (length dat) - 1)")
          case (Inl e1)
          with more full Inr hydrate_inv_failed [OF inv1] show ?thesis
            by (subst (1 2) hydrate_loop.simps) auto
        next
          case pp: (Inr u)
          from "1.IH"(2) [OF more full Inr pp inv1] more full Inr pp show ?thesis
            by (subst (1 2) hydrate_loop.simps) auto
        qed
      qed
    qed
  qed
qed

lemma hydrate_done_failed: "hydrate_done dat h \<Longrightarrow> hydrate_failed dat e h"
  unfolding hydrate_done_def hydrate_failed_def
  by (auto simp: answered_def dest: in_set_butlastD split: sum.splits)

lemma hydrate_inv_done:
  assumes "hydrate_inv dat (length dat) [] h"
  shows "hydrate_done dat h"
proof -
  from assms have "concat (map fst (lookups h)) = uris_of dat"
    "\<forall>c\<in>set (map fst (lookups h)). length c = BATCH_SIZE"
    by (simp_all add: hydrate_inv_def uris_of_def)
  with chunks_exact_full [OF BATCH_SIZE_pos, of "map fst (lookups h)"]
  have "map fst (lookups h) = chunks BATCH_SIZE (uris_of dat)" by simp
  with assms show ?thesis by (simp add: hydrate_done_def hydrate_inv_def)
qed

lemma hydrate_inv_last_lookup:
  assumes "hydrate_inv dat (length dat) batch h" "batch \<noteq> []" "lookup_batch ep batch h = Inr h'"
  shows "hydrate_done dat h'"
proof -
  from lookup_batch_Inr [OF assms(3)] obtain r posts where
    r: "lookups h' = lookups h @ [(batch, Inr r)]" "py_truthy r" "py_iter r = Inr posts"
      "corpus h' = corpus h @ posts" "hydrated h' = hydrated h + length posts"
    by blast
  from assms(1) have inv: "concat (map fst (lookups h)) @ batch = uris_of dat"
    "\<forall>c\<in>set (map fst (lookups h)). length c = BATCH_SIZE" "length batch \<le> BATCH_SIZE"
    by (simp_all add: hydrate_inv_def uris_of_def)
  from chunks_exact [OF BATCH_SIZE_pos inv(2) _ inv(3)] assms(2) inv(1)
  have "chunks BATCH_SIZE (uris_of dat) = map fst (lookups h) @ [batch]" by simp
  moreover from r(2) have "answered (batch, Inr r)" by (simp add: answered_def)
  moreover from r(3) have "result_posts (batch, Inr r) = posts" by (simp add: result_posts_def)
  ultimately show ?thesis
    using assms(1) r by (simp add: hydrate_done_def hydrate_inv_def)
qed

lemma hydrate_Inr:
  assumes "hydrate ep dat = Inr h"
  shows "hydrate_done dat h"
proof -
  from assms obtain batch h0 where loop: "hydrate_loop ep dat 0 [] hydration_init = Inr (batch, h0)"
    by (auto simp: hydrate_def split: sum.splits prod.splits if_splits)
  from hydrate_loop_inv [OF hydrate_inv_init, of ep dat batch h0] loop
  have inv: "hydrate_inv dat (length dat) batch h0" by simp
  show ?thesis
  proof (cases "batch = []")
    case True
    with assms loop have "h = h0"
      by (auto simp: hydrate_def split: sum.splits)
    with inv True show ?thesis by (simp add: hydrate_inv_done)
  next
    case False
    with assms loop have "lookup_batch ep batch h0 = Inr h"
      by (auto simp: hydrate_def split: sum.splits)
    with inv False show ?thesis by (rule hydrate_inv_last_lookup)
  qed
qed

lemma hydrate_Inl:
  assumes "hydrate ep dat = Inl (e, h)"
  shows "hydrate_failed dat e h"
proof (cases "print_progress 0 (int (length dat) - 1)")
  case (Inl e')
  with assms have "h = hydration_init" by (simp add: hydrate_def)
  with hydrate_inv_failed [OF hydrate_inv_init] show ?thesis by simp
next
  case pp: (Inr u)
  show ?thesis
  proof (cases "hydrate_loop ep dat 0 [] hydration_init")
    case (Inl eh)
    with assms pp have "hydrate_loop ep dat 0 [] hydration_init = Inl (e, h)"
      by (simp add: hydrate_def)
    with hydrate_loop_inv [OF hydrate_inv_init, of ep dat _ h e] show ?thesis by simp
  next
    case (Inr bh)
    obtain batch h0 where bh: "bh = (batch, h0)" by (cases bh)
    from hydrate_loop_inv [OF hydrate_inv_init, of ep dat batch h0] Inr bh
    have inv: "hydrate_inv dat (length dat) batch h0" by simp
    show ?thesis
    proof (cases "batch = []")
      case True
      with assms pp Inr bh show ?thesis by (simp add: hydrate_def)
    next
      case False
      show ?thesis
      proof (cases "lookup_batch ep batch h0")
        case (Inl eh)
        with assms pp Inr bh False have "lookup_batch ep batch h0 = Inl (e, h)"
          by (simp add: hydrate_def)
        with inv False show ?thesis
          by (intro hydrate_failed_lookup [of dat "length dat" batch h0 ep]) simp_all
      next
        case ok: (Inr h1)
        with assms pp Inr bh False have "h = h1"
          by (auto simp: hydrate_def split: sum.splits)
        with hydrate_inv_last_lookup [OF inv False ok] show ?thesis
          by (simp add: hydrate_done_failed)
      qed
    qed
  qed
qed


lemma first_batch_not_found_run:
  "hydrate endpoint_first_not_found (replicate 26 sample_entry)
   = Inl (AssertionError, \<lparr>corpus = [], hydrated = 0,
        http = \<lparr>requests = [replicate 25 (JStr ''at://a/app.bsky.feed.post/1'')], sleeps = []\<rparr>,
        lookups = [(replicate 25 (JStr ''at://a/app.bsky.feed.post/1''), Inr (JArr []))]\<rparr>)"
  by code_simp

lemma small_run:
  "hydrate endpoint_ok [sample_entry, sample_entry]
   = Inr \<lparr>corpus = [example_post], hydrated = 1,
        http = \<lparr>requests = [[JStr ''at://a/app.bsky.feed.post/1'',
                                 JStr ''at://a/app.bsky.feed.post/1'']], sleeps = []\<rparr>,
        lookups = [([JStr ''at://a/app.bsky.feed.post/1'', JStr ''at://a/app.bsky.feed.post/1''],
                    Inr (JArr [example_post]))]\<rparr>"
  by code_simp

text \<open>
  With a single entry the first call of the progress bar divides by zero, before any batch
  is looked up. The total of the document written out is the number of its elements.
\<close>

lemma single_entry_raises: "hydrate ep [d] = Inl (ZeroDivisionError, hydration_init)"
  by (simp add: hydrate_def print_progress_def)

lemma document_total:
  "hydrated_document ep dat = Inr doc \<Longrightarrow> doc_total doc = length (doc_data doc)"
  using hydrate_Inr [of ep dat]
  by (auto simp: hydrated_document_def hydrate_done_def split: sum.splits prod.splits)



text \<open>
  C1, as amended. A run of \<^verbatim>\<open>hydrate\<close> that returns had a non-empty result for every
  batch, its corpus is the concatenation of the posts of the batch results, in order, and
  \<open>hydrated\<close> is their number. A batch whose lookup ends in an empty result makes the run
  raise \<^verbatim>\<open>AssertionError\<close>: that batch is the last one looked up and every batch before it
  was answered.
\<close>

theorem empty_batch_aborts:
  "(hydrate ep dat = Inr h \<longrightarrow>
      (\<forall>l\<in>set (lookups h). answered l)
      \<and> corpus h = concat (map result_posts (lookups h))
      \<and> hydrated h = length (corpus h))
   \<and> (hydrate ep dat = Inl (e, h') \<and> l \<in> set (lookups h') \<and> snd l = Inr r \<and> \<not> py_truthy r \<longrightarrow>
        e = AssertionError \<and> l = last (lookups h')
        \<and> (\<forall>l'\<in>set (butlast (lookups h')). answered l'))"
proof (intro conjI impI)
  assume "hydrate ep dat = Inr h"
  from hydrate_Inr [OF this]
  show "\<forall>l\<in>set (lookups h). answered l"
    "corpus h = concat (map result_posts (lookups h))"
    "hydrated h = length (corpus h)"
    by (simp_all add: hydrate_done_def)
next
  assume a: "hydrate ep dat = Inl (e, h') \<and> l \<in> set (lookups h') \<and> snd l = Inr r \<and> \<not> py_truthy r"
  then have "hydrate ep dat = Inl (e, h')" by simp
  then have f: "hydrate_failed dat e h'" by (rule hydrate_Inl)
  from a have ne: "lookups h' \<noteq> []" and un: "\<not> answered l"
    by (auto simp: answered_def)
  from f show all: "\<forall>l'\<in>set (butlast (lookups h')). answered l'"
    by (simp add: hydrate_failed_def)
  from ne have "lookups h' = butlast (lookups h') @ [last (lookups h')]" by simp
  then have "set (lookups h') = set (butlast (lookups h')) \<union> {last (lookups h')}"
    by (metis list.set(1) list.simps(15) set_append)
  with a un all show last: "l = last (lookups h')" by auto
  with a f ne show "e = AssertionError"
    by (auto simp: hydrate_failed_def)
qed

theorem empty_batch_aborts_witness:
  "hydrate endpoint_ok [sample_entry, sample_entry]
   = Inr \<lparr>corpus = [example_post], hydrated = 1,
        http = \<lparr>requests = [[JStr ''at://a/app.bsky.feed.post/1'',
                                 JStr ''at://a/app.bsky.feed.post/1'']], sleeps = []\<rparr>,
        lookups = [([JStr ''at://a/app.bsky.feed.post/1'', JStr ''at://a/app.bsky.feed.post/1''],
                    Inr (JArr [example_post]))]\<rparr>
   \<and> hydrated \<lparr>corpus = [example_post], hydrated = 1,
        http = \<lparr>requests = [[JStr ''at://a/app.bsky.feed.post/1'',
                                 JStr ''at://a/app.bsky.feed.post/1'']], sleeps = []\<rparr>,
        lookups = [([JStr ''at://a/app.bsky.feed.post/1'', JStr ''at://a/app.bsky.feed.post/1''],
                    Inr (JArr [example_post]))]\<rparr>
     = length [example_post]
   \<and> hydrate endpoint_first_not_found (replicate 26 sample_entry)
     = Inl (AssertionError, \<lparr>corpus = [], hydrated = 0,
        http = \<lparr>requests = [replicate 25 (JStr ''at://a/app.bsky.feed.post/1'')], sleeps = []\<rparr>,
        lookups = [(replicate 25 (JStr ''at://a/app.bsky.feed.post/1''), Inr (JArr []))]\<rparr>)
   \<and> snd (replicate 25 (JStr ''at://a/app.bsky.feed.post/1''), Inr (JArr []) :: error + json)
       = Inr (JArr [])
   \<and> \<not> py_truthy (JArr [])"
proof -
  note ok = small_run
  note failed = first_batch_not_found_run
  from empty_batch_aborts [where ep = endpoint_ok and dat = "[sample_entry, sample_entry]",
      THEN conjunct1, rule_format, OF ok]
  have "hydrated \<lparr>corpus = [example_post], hydrated = 1,
        http = \<lparr>requests = [[JStr ''at://a/app.bsky.feed.post/1'',
                                 JStr ''at://a/app.bsky.feed.post/1'']], sleeps = []\<rparr>,
        lookups = [([JStr ''at://a/app.bsky.feed.post/1'', JStr ''at://a/app.bsky.feed.post/1''],
                    Inr (JArr [example_post]))]\<rparr>
     = length [example_post]"
    by simp
  moreover
  from empty_batch_aborts [where ep = endpoint_first_not_found
      and dat = "replicate 26 sample_entry" and e = AssertionError
      and l = "(replicate 25 (JStr ''at://a/app.bsky.feed.post/1''), Inr (JArr []))"
      and r = "JArr []", THEN conjunct2] failed
  have "(replicate 25 (JStr ''at://a/app.bsky.feed.post/1''), Inr (JArr []))
      = last [(replicate 25 (JStr ''at://a/app.bsky.feed.post/1''), Inr (JArr []) :: error + json)]"
    by simp
  ultimately show ?thesis
    using ok failed by simp
qed

text \<open>
  C1, as stated, fails: with 26 entries and an endpoint that answers 404 to the first
  request, the first batch gets an empty result and the run ends with \<^verbatim>\<open>AssertionError\<close>;
  the second batch is never looked up and no document is produced.
\<close>

theorem empty_batch_aborts_counterexample:
  "hydrated_document endpoint_first_not_found (replicate 26 sample_entry) = Inl AssertionError"
  using first_batch_not_found_run by (simp add: hydrated_document_def)

text \<open>
  C8. The document written for two entries, when the endpoint returns one post with the
  fields \<open>uri\<close>, \<open>cid\<close> and \<open>likeCount\<close>, has \<open>total = 1\<close> and holds that post as it
  came, not the item built from it.
\<close>

theorem raw_post_persisted:
  "hydrated_document endpoint_ok [sample_entry, sample_entry]
     = Inr \<lparr>doc_total = 1, doc_data = [example_post]\<rparr>
   \<and> make_item example_post
     = Inr (JObj [(''uri'', JStr ''at://a/app.bsky.feed.post/1''), (''author'', JNull),
                  (''record'', JNull), (''like_count'', JNum 3), (''reply_count'', JNull),
                  (''repost_count'', JNull), (''bookmark_count'', JNull),
                  (''quote_count'', JNull)])
   \<and> example_post
     \<noteq> JObj [(''uri'', JStr ''at://a/app.bsky.feed.post/1''), (''author'', JNull),
             (''record'', JNull), (''like_count'', JNum 3), (''reply_count'', JNull),
             (''repost_count'', JNull), (''bookmark_count'', JNull),
             (''quote_count'', JNull)]"
  using small_run by (simp add: hydrated_document_def make_item_def py_get_def example_post_def)

end
